theory Spec2Isabelle
  imports Complex_Main
begin

section \<open>The buffer and the JavaScript operators the allocator uses\<close>

text \<open>
  The allocator of \<^verbatim>\<open>huffman-allocator.ts\<close> works on one numeric array. The model keeps the
  array as a list of integers, together with a flag \<open>oob\<close> that is raised as soon as an
  index outside \<open>0 .. length - 1\<close> is read or written. JavaScript does not fail there: a read
  yields \<^verbatim>\<open>undefined\<close>, with which every comparison is false, and a write to a negative index
  leaves the elements alone. Both are modelled so. Where \<^verbatim>\<open>undefined\<close> would enter an addition
  (pass 1 only) the model takes 0 for it; the flag is raised there, and pass 1 is shown never
  to do it on a buffer of two or more elements.
\<close>

record buf =
  arr :: "int list"
  oob :: bool

definition in_range :: "buf \<Rightarrow> int \<Rightarrow> bool" where
  "in_range s i \<longleftrightarrow> 0 \<le> i \<and> i < int (length (arr s))"

definition rd :: "buf \<Rightarrow> int \<Rightarrow> int option" where
  "rd s i = (if in_range s i then Some (arr s ! nat i) else None)"

definition val :: "buf \<Rightarrow> int \<Rightarrow> int" where
  "val s i = (case rd s i of Some v \<Rightarrow> v | None \<Rightarrow> 0)"

definition touch :: "buf \<Rightarrow> int \<Rightarrow> buf" where
  "touch s i = (if in_range s i then s else s\<lparr>oob := True\<rparr>)"

definition wr :: "buf \<Rightarrow> int \<Rightarrow> int \<Rightarrow> buf" where
  "wr s i v = (if in_range s i then s\<lparr>arr := (arr s)[nat i := v]\<rparr> else s\<lparr>oob := True\<rparr>)"

text \<open>\<^verbatim>\<open>a < b\<close> on two array reads: false when either is \<^verbatim>\<open>undefined\<close>.\<close>

definition lt_undef :: "int option \<Rightarrow> int option \<Rightarrow> bool" where
  "lt_undef a b = (case (a, b) of (Some x, Some y) \<Rightarrow> x < y | _ \<Rightarrow> False)"

text \<open>
  The shifts \<^verbatim>\<open><<\<close> and \<^verbatim>\<open>>>\<close> coerce the left operand to a signed 32-bit integer and
  take the shift count modulo 32; \<^verbatim>\<open>%\<close> truncates towards zero.
\<close>

definition to_int32 :: "int \<Rightarrow> int" where
  "to_int32 x = (x + 2147483648) mod 4294967296 - 2147483648"

definition js_shl :: "int \<Rightarrow> int \<Rightarrow> int" where
  "js_shl a b = to_int32 (to_int32 a * 2 ^ nat (b mod 32))"

definition js_sar :: "int \<Rightarrow> int \<Rightarrow> int" where
  "js_sar a b = to_int32 a div 2 ^ nat (b mod 32)"

definition js_rem :: "int \<Rightarrow> int \<Rightarrow> int" where
  "js_rem a b = sgn a * (\<bar>a\<bar> mod \<bar>b\<bar>)"

text \<open>
  Modelled from the spec: \<^verbatim>\<open>Util.fls\<close> (find last set) is imported from \<^verbatim>\<open>./util\<close>, which
  is not among the sources. The spec describes it as the position of the highest set bit,
  \<open>floor (log2 x) + 1\<close>; for \<open>x \<le> 0\<close> the model returns 0.
\<close>

fun fls :: "int \<Rightarrow> int" where
  "fls x = (if x \<le> 0 then 0 else 1 + fls (x div 2))"

declare fls.simps [simp del]

section \<open>FIRST\<close>

text \<open>The test \<^verbatim>\<open>(array[i] % length) > limit\<close>.\<close>

definition points_beyond :: "buf \<Rightarrow> int \<Rightarrow> int \<Rightarrow> bool" where
  "points_beyond s i limit =
     (case rd s i of None \<Rightarrow> False
      | Some v \<Rightarrow> js_rem v (int (length (arr s))) > limit)"

text \<open>The first loop of \<^verbatim>\<open>first\<close>; it returns the final \<open>i\<close> and \<open>k\<close>.\<close>

partial_function (option) first_gallop ::
  "buf \<Rightarrow> int \<Rightarrow> int \<Rightarrow> int \<Rightarrow> int \<Rightarrow> (int \<times> int \<times> buf) option" where
  "first_gallop s limit nodesToMove i k =
     (if i \<ge> nodesToMove then
        (if points_beyond s i limit
         then first_gallop (touch s i) limit nodesToMove (i - (limit - i + 1)) i
         else Some (i, k, touch s i))
      else Some (i, k, s))"

text \<open>The second loop of \<^verbatim>\<open>first\<close>.\<close>

partial_function (option) first_bisect ::
  "buf \<Rightarrow> int \<Rightarrow> int \<Rightarrow> int \<Rightarrow> (int \<times> buf) option" where
  "first_bisect s limit i k =
     (if k > i + 1 then
        (let temp = js_sar (i + k) 1 in
         if points_beyond s temp limit
         then first_bisect (touch s temp) limit i temp
         else first_bisect (touch s temp) limit temp k)
      else Some (k, s))"

declare first_gallop.simps [code]
declare first_bisect.simps [code]

definition first :: "buf \<Rightarrow> int \<Rightarrow> int \<Rightarrow> (int \<times> buf) option" where
  "first s i nodesToMove =
     Option.bind (first_gallop s i nodesToMove i (int (length (arr s)) - 2))
       (\<lambda>(i', k, s'). first_bisect s' i (max (nodesToMove - 1) i') k)"

section \<open>Pass 1: extended parent pointers\<close>

text \<open>One iteration of the loop of \<^verbatim>\<open>setExtendedParentPointers\<close>.\<close>

definition sepp_step :: "buf \<Rightarrow> int \<Rightarrow> int \<Rightarrow> int \<Rightarrow> buf \<times> int \<times> int" where
  "sepp_step s headNode tailNode topNode =
     (let length = int (length (arr s));
          s1 = (if topNode \<ge> length then s else touch (touch s headNode) topNode);
          (temp, s2, headNode1, topNode1) =
            (if topNode \<ge> length \<or> lt_undef (rd s headNode) (rd s topNode)
             then (val s1 headNode, wr (touch s1 headNode) headNode tailNode,
                   headNode + 1, topNode)
             else (val s1 topNode, touch s1 topNode, headNode, topNode + 1));
          s3 = (if topNode1 \<ge> length \<or> \<not> headNode1 < tailNode then s2
                else touch (touch s2 headNode1) topNode1);
          (temp', s4, headNode2, topNode2) =
            (if topNode1 \<ge> length \<or>
                (headNode1 < tailNode \<and> lt_undef (rd s2 headNode1) (rd s2 topNode1))
             then (temp + val s3 headNode1,
                   wr (touch s3 headNode1) headNode1 (tailNode + length),
                   headNode1 + 1, topNode1)
             else (temp + val s3 topNode1, touch s3 topNode1, headNode1, topNode1 + 1))
      in (wr s4 tailNode temp', headNode2, topNode2))"

lemma length_touch [simp]: "length (arr (touch s i)) = length (arr s)"
  by (simp add: touch_def)

lemma length_wr [simp]: "length (arr (wr s i v)) = length (arr s)"
  by (simp add: wr_def)

lemma length_sepp_step [simp]:
  "length (arr (fst (sepp_step s h t p))) = length (arr s)"
  by (simp add: sepp_step_def Let_def split: prod.splits if_splits)

lemma length_sepp_step_eq:
  "(s', y) = sepp_step s h t p \<Longrightarrow> length (arr s') = length (arr s)"
  using length_sepp_step [of s h t p] by (metis fst_conv)

function sepp_loop :: "buf \<Rightarrow> int \<Rightarrow> int \<Rightarrow> int \<Rightarrow> buf" where
  "sepp_loop s headNode tailNode topNode =
     (if tailNode < int (length (arr s)) - 1
      then (case sepp_step s headNode tailNode topNode of
              (s', headNode', topNode') \<Rightarrow> sepp_loop s' headNode' (tailNode + 1) topNode')
      else s)"
  by pat_completeness auto
termination
  by (relation "measure (\<lambda>(s, h, t, p). nat (int (length (arr s)) - 1 - t))")
     (auto dest: length_sepp_step_eq)

declare sepp_loop.simps [simp del]

definition setExtendedParentPointers :: "buf \<Rightarrow> buf" where
  "setExtendedParentPointers s =
     sepp_loop (wr (touch (touch s 0) 1) 0 (val s 0 + val s 1)) 0 1 2"

section \<open>Pass 2: the number of nodes to relocate\<close>

partial_function (option) fntr_loop ::
  "buf \<Rightarrow> int \<Rightarrow> int \<Rightarrow> int \<Rightarrow> (int \<times> buf) option" where
  "fntr_loop s maximumLength currentNode currentDepth =
     (if currentDepth < maximumLength - 1 \<and> currentNode > 1
      then Option.bind (first s (currentNode - 1) 0)
             (\<lambda>(k, s'). fntr_loop s' maximumLength k (currentDepth + 1))
      else Some (currentNode, s))"

declare fntr_loop.simps [code]

definition findNodesToRelocate :: "buf \<Rightarrow> int \<Rightarrow> (int \<times> buf) option" where
  "findNodesToRelocate s maximumLength =
     fntr_loop s maximumLength (int (length (arr s)) - 2) 1"

section \<open>Pass 3: the two length assigners\<close>

text \<open>The inner loop \<^verbatim>\<open>for (i = ...; i > 0; i--) array[nextNode--] = currentDepth\<close>.\<close>

function write_run :: "buf \<Rightarrow> int \<Rightarrow> int \<Rightarrow> int \<Rightarrow> buf \<times> int" where
  "write_run s nextNode currentDepth i =
     (if i > 0 then write_run (wr s nextNode currentDepth) (nextNode - 1) currentDepth (i - 1)
      else (s, nextNode))"
  by pat_completeness auto
termination
  by (relation "measure (\<lambda>(s, nx, d, i). nat i)") auto

declare write_run.simps [simp del]

partial_function (option) anl_loop ::
  "buf \<Rightarrow> int \<Rightarrow> int \<Rightarrow> int \<Rightarrow> int \<Rightarrow> buf option" where
  "anl_loop s firstNode nextNode currentDepth availableNodes =
     (if availableNodes > 0 then
        (let lastNode = firstNode in
         Option.bind (first s (lastNode - 1) 0)
           (\<lambda>(firstNode', s1).
              (case write_run s1 nextNode currentDepth
                      (availableNodes - (lastNode - firstNode')) of
                 (s2, nextNode') \<Rightarrow>
                   anl_loop s2 firstNode' nextNode' (currentDepth + 1)
                     (js_shl (lastNode - firstNode') 1))))
      else Some s)"

declare anl_loop.simps [code]

definition allocateNodeLengths :: "buf \<Rightarrow> buf option" where
  "allocateNodeLengths s =
     anl_loop s (int (length (arr s)) - 2) (int (length (arr s)) - 1) 1 2"

text \<open>
  The body of the level walk of \<^verbatim>\<open>allocateNodeLengthsWithRelocation\<close> between the search
  for \<open>firstNode\<close> and the writes: the offset of the level and the boundary adjustment.
\<close>

definition anlr_offset :: "buf \<Rightarrow> int \<Rightarrow> int \<Rightarrow> int \<Rightarrow> int \<Rightarrow> int \<Rightarrow> int \<times> int \<times> buf" where
  "anlr_offset s insertDepth currentDepth nodesLeftToMove lastNode firstNode =
     (if currentDepth \<ge> insertDepth
      then (min nodesLeftToMove (js_shl 1 (currentDepth - insertDepth)), firstNode, s)
      else if currentDepth = insertDepth - 1
      then (1, if rd s firstNode = Some lastNode then firstNode + 1 else firstNode,
            touch s firstNode)
      else (0, firstNode, s))"

partial_function (option) anlr_loop ::
  "buf \<Rightarrow> int \<Rightarrow> int \<Rightarrow> int \<Rightarrow> int \<Rightarrow> int \<Rightarrow> int \<Rightarrow> int \<Rightarrow> buf option" where
  "anlr_loop s nodesToMove insertDepth firstNode nextNode currentDepth nodesLeftToMove
       availableNodes =
     (if availableNodes > 0 then
        (let lastNode = firstNode in
         Option.bind (if firstNode \<le> nodesToMove then Some (firstNode, s)
                      else first s (lastNode - 1) nodesToMove)
           (\<lambda>(firstNode1, s1).
              (case anlr_offset s1 insertDepth currentDepth nodesLeftToMove lastNode
                      firstNode1 of
                 (offset, firstNode2, s2) \<Rightarrow>
                   (case write_run s2 nextNode currentDepth
                           (availableNodes - (lastNode - firstNode2 + offset)) of
                      (s3, nextNode') \<Rightarrow>
                        anlr_loop s3 nodesToMove insertDepth firstNode2 nextNode'
                          (currentDepth + 1) (nodesLeftToMove - offset)
                          (js_shl (lastNode - firstNode2 + offset) 1)))))
      else Some s)"

declare anlr_loop.simps [code]

definition allocateNodeLengthsWithRelocation :: "buf \<Rightarrow> int \<Rightarrow> int \<Rightarrow> buf option" where
  "allocateNodeLengthsWithRelocation s nodesToMove insertDepth =
     (let firstNode = int (length (arr s)) - 2;
          nextNode = int (length (arr s)) - 1;
          currentDepth = (if insertDepth = 1 then 2 else 1);
          nodesLeftToMove = (if insertDepth = 1 then nodesToMove - 2 else nodesToMove)
      in anlr_loop s nodesToMove insertDepth firstNode nextNode currentDepth nodesLeftToMove
           (js_shl currentDepth 1))"

section \<open>The orchestrator\<close>

definition allocateHuffmanCodeLengths :: "buf \<Rightarrow> int \<Rightarrow> buf option" where
  "allocateHuffmanCodeLengths s maximumLength =
     (if length (arr s) = 2 then Some (wr (wr s 1 1) 0 1)
      else if length (arr s) = 1 then Some (wr s 0 1)
      else
        (let s1 = setExtendedParentPointers s in
         Option.bind (findNodesToRelocate s1 maximumLength)
           (\<lambda>(nodesToRelocate, s2).
              if (case rd s2 0 of None \<Rightarrow> False
                  | Some v \<Rightarrow> js_rem v (int (length (arr s2))) \<ge> nodesToRelocate)
              then allocateNodeLengths (touch s2 0)
              else allocateNodeLengthsWithRelocation (touch s2 0) nodesToRelocate
                     (maximumLength - fls (nodesToRelocate - 1)))))"

text \<open>A call on a fresh buffer holding the frequencies \<open>xs\<close>.\<close>

definition fresh :: "int list \<Rightarrow> buf" where
  "fresh xs = \<lparr>arr = xs, oob = False\<rparr>"

section \<open>What the claims speak about\<close>

text \<open>
  \<open>ceil_log2 n\<close> is the least \<open>k\<close> with \<open>n \<le> 2 ^ k\<close>, the bound below which the
  documentation of \<^verbatim>\<open>allocateHuffmanCodeLengths\<close> does not allow \<open>maximumLength\<close>;
  \<open>kraft_sum\<close> is the sum of \<open>2 ^ - l\<close> over the code lengths.
\<close>

fun ceil_log2 :: "nat \<Rightarrow> nat" where
  "ceil_log2 n = (if n \<le> 1 then 0 else Suc (ceil_log2 ((n + 1) div 2)))"

declare ceil_log2.simps [simp del]

definition kraft_sum :: "int list \<Rightarrow> rat" where
  "kraft_sum ls = (\<Sum>l\<leftarrow>ls. 1 / 2 ^ nat l)"

section \<open>Frame properties: what reading does to the buffer\<close>

lemma arr_touch [simp]: "arr (touch s i) = arr s"
  by (simp add: touch_def)

lemma first_gallop_arr:
  assumes "first_gallop s limit ntm i k = Some r"
  shows "arr (snd (snd r)) = arr s"
proof (rule first_gallop.raw_induct
    [where P = "\<lambda>s limit ntm i k r. arr (snd (snd r)) = arr s", OF _ assms])
  fix f :: "buf \<Rightarrow> int \<Rightarrow> int \<Rightarrow> int \<Rightarrow> int \<Rightarrow> (int \<times> int \<times> buf) option"
    and s limit ntm i k r
  assume IH: "\<And>s limit ntm i k y. f s limit ntm i k = Some y \<Longrightarrow> arr (snd (snd y)) = arr s"
    and st: "(if ntm \<le> i then
                if points_beyond s i limit
                then f (touch s i) limit ntm (i - (limit - i + 1)) i
                else Some (i, k, touch s i)
              else Some (i, k, s)) = Some r"
  show "arr (snd (snd r)) = arr s"
    using st by (auto split: if_splits dest!: IH)
qed

lemma first_bisect_arr:
  assumes "first_bisect s limit i k = Some r"
  shows "arr (snd r) = arr s"
proof (rule first_bisect.raw_induct
    [where P = "\<lambda>s limit i k r. arr (snd r) = arr s", OF _ assms])
  fix f :: "buf \<Rightarrow> int \<Rightarrow> int \<Rightarrow> int \<Rightarrow> (int \<times> buf) option"
    and s limit i k r
  assume IH: "\<And>s limit i k y. f s limit i k = Some y \<Longrightarrow> arr (snd y) = arr s"
    and st: "(if i + 1 < k then
                let temp = js_sar (i + k) 1 in
                if points_beyond s temp limit
                then f (touch s temp) limit i temp
                else f (touch s temp) limit temp k
              else Some (k, s)) = Some r"
  show "arr (snd r) = arr s"
    using st by (auto split: if_splits simp: Let_def dest!: IH)
qed

lemma first_arr:
  assumes "first s i ntm = Some (k, s')"
  shows "arr s' = arr s"
proof -
  from assms obtain i' k' s1 where
    g: "first_gallop s i ntm i (int (length (arr s)) - 2) = Some (i', k', s1)"
    and b: "first_bisect s1 i (max (ntm - 1) i') k' = Some (k, s')"
    by (auto simp: first_def split: Option.bind_splits)
  from first_gallop_arr [OF g] first_bisect_arr [OF b] show ?thesis
    by simp
qed

lemma fntr_loop_arr:
  assumes "fntr_loop s m c d = Some r"
  shows "arr (snd r) = arr s"
proof (rule fntr_loop.raw_induct
    [where P = "\<lambda>s m c d r. arr (snd r) = arr s", OF _ assms])
  fix f :: "buf \<Rightarrow> int \<Rightarrow> int \<Rightarrow> int \<Rightarrow> (int \<times> buf) option"
    and s m c d r
  assume IH: "\<And>s m c d y. f s m c d = Some y \<Longrightarrow> arr (snd y) = arr s"
    and st: "(if d < m - 1 \<and> 1 < c
              then Option.bind (first s (c - 1) 0) (\<lambda>(k, s'). f s' m k (d + 1))
              else Some (c, s)) = Some r"
  show "arr (snd r) = arr s"
    using st by (auto split: if_splits Option.bind_splits dest!: IH first_arr)
qed

lemma findNodesToRelocate_arr:
  "findNodesToRelocate s m = Some (r, s') \<Longrightarrow> arr s' = arr s"
  using fntr_loop_arr [of s m "int (length (arr s)) - 2" 1 "(r, s')"]
  by (simp add: findNodesToRelocate_def)

lemma length_sepp_loop [simp]: "length (arr (sepp_loop s h t p)) = length (arr s)"
proof (induction s h t p rule: sepp_loop.induct)
  case (1 s h t p)
  show ?case
  proof (cases "t < int (length (arr s)) - 1")
    case True
    obtain s' h' p' where st: "sepp_step s h t p = (s', h', p')"
      by (cases "sepp_step s h t p") auto
    have "length (arr s') = length (arr s)"
      using length_sepp_step [of s h t p] st by simp
    moreover have "length (arr (sepp_loop s' h' (t + 1) p')) = length (arr s')"
      using "1.IH" [OF True st [symmetric] refl] .
    ultimately show ?thesis
      using True st by (simp add: sepp_loop.simps [of s h t p])
  next
    case False
    then show ?thesis
      by (simp add: sepp_loop.simps [of s h t p])
  qed
qed

lemma length_setExtendedParentPointers [simp]:
  "length (arr (setExtendedParentPointers s)) = length (arr s)"
  by (simp add: setExtendedParentPointers_def)

section \<open>The orchestrator: degenerate sizes and dispatch\<close>

text \<open>
  C6. A buffer of one element becomes \<open>[1]\<close> and a buffer of two elements becomes \<open>[1, 1]\<close>,
  whatever the frequencies and the limit are; the result is computed by the two writes of
  the \<^verbatim>\<open>switch\<close> alone, none of the three passes takes part.
\<close>

theorem C6_trivial_sizes:
  "allocateHuffmanCodeLengths (fresh [a]) maximumLength = Some (fresh [1]) \<and>
   allocateHuffmanCodeLengths (fresh [a, b]) maximumLength = Some (fresh [1, 1])"
  by (simp add: allocateHuffmanCodeLengths_def fresh_def wr_def in_range_def)

text \<open>
  C9. For a buffer of one or two elements the result does not depend on \<open>maximumLength\<close>:
  any two limits, also limits below the documented minimum, give the same buffer.
\<close>

theorem C9_trivial_sizes_ignore_limit:
  assumes "length xs = 1 \<or> length xs = 2"
  shows "allocateHuffmanCodeLengths (fresh xs) maximumLength1 =
         allocateHuffmanCodeLengths (fresh xs) maximumLength2"
  using assms by (auto simp: allocateHuffmanCodeLengths_def fresh_def)

theorem C9_trivial_sizes_ignore_limit_witness:
  "(length [7 :: int, 9] = 1 \<or> length [7 :: int, 9] = 2) \<and>
   allocateHuffmanCodeLengths (fresh [7, 9]) 0 = Some (fresh [1, 1]) \<and>
   allocateHuffmanCodeLengths (fresh [7, 9]) 0 = allocateHuffmanCodeLengths (fresh [7, 9]) 20"
proof -
  have h: "length [7 :: int, 9] = 1 \<or> length [7 :: int, 9] = 2"
    by simp
  have v: "allocateHuffmanCodeLengths (fresh [7, 9]) 0 = Some (fresh [1, 1])"
    by (simp add: allocateHuffmanCodeLengths_def fresh_def wr_def in_range_def)
  show ?thesis
    using h v C9_trivial_sizes_ignore_limit [OF h, of 0 20] by simp
qed

text \<open>
  C7. For a buffer of three or more elements, with \<open>nodesToRelocate\<close> the result of pass 2
  on the output of pass 1, the orchestrator runs the unlimited assigner exactly when
  \<open>array[0] % n \<ge> nodesToRelocate\<close>; otherwise it runs the limited assigner, with
  \<open>insertDepth = maximumLength - fls (nodesToRelocate - 1)\<close>, where \<open>fls\<close> is the position
  of the highest set bit.
\<close>

theorem C7_dispatch:
  assumes "3 \<le> length (arr s)"
    and "findNodesToRelocate (setExtendedParentPointers s) maximumLength =
           Some (nodesToRelocate, s2)"
  shows "allocateHuffmanCodeLengths s maximumLength =
     (if js_rem (arr s2 ! 0) (int (length (arr s))) \<ge> nodesToRelocate
      then allocateNodeLengths s2
      else allocateNodeLengthsWithRelocation s2 nodesToRelocate
             (maximumLength - fls (nodesToRelocate - 1)))"
proof -
  have len: "length (arr s2) = length (arr s)"
    using findNodesToRelocate_arr [OF assms(2)] by simp
  have r: "in_range s2 0"
    using assms(1) len by (cases "arr s2") (auto simp: in_range_def)
  then have t: "touch s2 0 = s2" "rd s2 0 = Some (arr s2 ! 0)"
    by (simp_all add: touch_def rd_def)
  have n: "length (arr s) \<noteq> 2" "length (arr s) \<noteq> 1"
    using assms(1) by simp_all
  show ?thesis
    unfolding allocateHuffmanCodeLengths_def Let_def
    by (simp only: n if_False assms(2) Option.bind.simps prod.case t option.case len)
qed

theorem C7_dispatch_witness:
  "3 \<le> length (arr (fresh [1, 1, 1, 3])) \<and>
   findNodesToRelocate (setExtendedParentPointers (fresh [1, 1, 1, 3])) 2 =
     Some (2, fresh [5, 6, 6, 3]) \<and>
   \<not> js_rem (arr (fresh [5, 6, 6, 3]) ! 0) 4 \<ge> 2 \<and> fls (2 - 1) = 1 \<and>
   allocateHuffmanCodeLengths (fresh [1, 1, 1, 3]) 2 =
     allocateNodeLengthsWithRelocation (fresh [5, 6, 6, 3]) 2 1"
proof -
  have h1: "3 \<le> length (arr (fresh [1, 1, 1, 3]))"
    by (simp add: fresh_def)
  have h2: "findNodesToRelocate (setExtendedParentPointers (fresh [1, 1, 1, 3])) 2 =
      Some (2, fresh [5, 6, 6, 3])"
    by code_simp
  have h3: "\<not> js_rem (arr (fresh [5, 6, 6, 3]) ! 0) 4 \<ge> 2"
    by (simp add: fresh_def js_rem_def)
  have h4: "fls (2 - 1) = 1"
    by code_simp
  have h5: "int (length (arr (fresh [1, 1, 1, 3]))) = 4"
    by (simp add: fresh_def)
  show ?thesis
    using C7_dispatch [OF h1 h2] h1 h2 h3 h4 h5 by simp
qed

text \<open>
  C10. Called with \<open>insertDepth = 1\<close>, the limited assigner enters its level walk at
  \<open>currentDepth = 2\<close> with \<open>availableNodes = 4\<close> and \<open>nodesLeftToMove = nodesToMove - 2\<close>;
  called with any \<open>insertDepth \<ge> 2\<close> it enters it at \<open>currentDepth = 1\<close> with
  \<open>availableNodes = 2\<close> and \<open>nodesLeftToMove = nodesToMove\<close>. In both cases
  \<open>firstNode = n - 2\<close> and \<open>nextNode = n - 1\<close>.
\<close>

theorem C10_relocation_start:
  "allocateNodeLengthsWithRelocation s nodesToMove 1 =
     anlr_loop s nodesToMove 1 (int (length (arr s)) - 2) (int (length (arr s)) - 1)
       2 (nodesToMove - 2) 4 \<and>
   (2 \<le> insertDepth \<longrightarrow>
     allocateNodeLengthsWithRelocation s nodesToMove insertDepth =
       anlr_loop s nodesToMove insertDepth (int (length (arr s)) - 2)
         (int (length (arr s)) - 1) 1 nodesToMove 2)"
  by (simp add: allocateNodeLengthsWithRelocation_def js_shl_def to_int32_def)

theorem C10_relocation_start_witness:
  "(2 :: int) \<le> 2 \<and>
   allocateNodeLengthsWithRelocation (fresh [1, 2, 3, 31, 16]) 2 2 =
     anlr_loop (fresh [1, 2, 3, 31, 16]) 2 2 3 4 1 2 2 \<and>
   anlr_loop (fresh [1, 2, 3, 31, 16]) 2 2 3 4 1 2 2 = Some (fresh [3, 3, 3, 3, 1])"
proof -
  have h: "(2 :: int) \<le> 2"
    by simp
  have l: "int (length (arr (fresh [1, 2, 3, 31, 16]))) = 5"
    by (simp add: fresh_def)
  have v: "anlr_loop (fresh [1, 2, 3, 31, 16]) 2 2 3 4 1 2 2 = Some (fresh [3, 3, 3, 3, 1])"
    by code_simp
  show ?thesis
    using C10_relocation_start [of "fresh [1, 2, 3, 31, 16]" 2 2] h l v by simp
qed

text \<open>
  C8. \<^verbatim>\<open>first\<close> and \<^verbatim>\<open>findNodesToRelocate\<close> do not change the buffer: whatever the array,
  the position, the number of nodes to move and the limit are, the array after the call is
  the array before it.
\<close>

theorem C8_readers_keep_buffer:
  "(first s i nodesToMove = Some (k, s') \<longrightarrow> arr s' = arr s) \<and>
   (findNodesToRelocate s maximumLength = Some (r, s'') \<longrightarrow> arr s'' = arr s)"
  using first_arr findNodesToRelocate_arr by blast

theorem C8_readers_keep_buffer_witness:
  "first (fresh [2, 3, 8, 10, 4]) 2 0 = Some (1, fresh [2, 3, 8, 10, 4]) \<and>
   findNodesToRelocate (fresh [2, 3, 8, 10, 4]) 4 = Some (1, fresh [2, 3, 8, 10, 4]) \<and>
   arr (fresh [2, 3, 8, 10, 4]) = [2, 3, 8, 10, 4]"
proof -
  have a: "first (fresh [2, 3, 8, 10, 4]) 2 0 = Some (1, fresh [2, 3, 8, 10, 4])"
    by code_simp
  have b: "findNodesToRelocate (fresh [2, 3, 8, 10, 4]) 4 = Some (1, fresh [2, 3, 8, 10, 4])"
    by code_simp
  show ?thesis
    using a b C8_readers_keep_buffer [of "fresh [2, 3, 8, 10, 4]" 2 0 1
        "fresh [2, 3, 8, 10, 4]" 4 1 "fresh [2, 3, 8, 10, 4]"]
    by (simp add: fresh_def)
qed

section \<open>Where the code leaves the documented behaviour\<close>

text \<open>
  C1. Kraft equality fails on the sorted frequencies \<open>[1, 1, 1, 1, 1, 1, 1, 6]\<close> with
  \<open>maximumLength = 3 = ceil (log2 8)\<close>, a limit the documentation allows: pass 2 finds five
  nodes to relocate, \<open>insertDepth\<close> becomes \<open>3 - fls 4 = 0\<close>, and the limited assigner hands
  out five codes of length 3 and three of length 2 (and one more write, at index \<open>-1\<close>).
  The Kraft sum of the lengths is \<open>11 / 8\<close>.
\<close>

theorem C1_kraft_sum_exceeds_one:
  "sorted [1 :: int, 1, 1, 1, 1, 1, 1, 6] \<and> ceil_log2 8 = 3 \<and>
   allocateHuffmanCodeLengths (fresh [1, 1, 1, 1, 1, 1, 1, 6]) 3 =
     Some \<lparr>arr = [3, 3, 3, 3, 3, 2, 2, 2], oob = True\<rparr> \<and>
   kraft_sum [3, 3, 3, 3, 3, 2, 2, 2] = 11 / 8"
proof -
  have "ceil_log2 8 = 3"
    by code_simp
  moreover have "allocateHuffmanCodeLengths (fresh [1, 1, 1, 1, 1, 1, 1, 6]) 3 =
      Some \<lparr>arr = [3, 3, 3, 3, 3, 2, 2, 2], oob = True\<rparr>"
    by code_simp
  moreover have "kraft_sum [3, 3, 3, 3, 3, 2, 2, 2] = 11 / 8"
    by (simp add: kraft_sum_def)
  ultimately show ?thesis
    by simp
qed

text \<open>
  C2, as stated, fails for a single symbol with \<open>maximumLength = 0 = ceil (log2 1)\<close>: the
  \<^verbatim>\<open>switch\<close> writes the length 1.
\<close>

theorem C2_single_symbol_exceeds_zero:
  "ceil_log2 (length [5 :: int]) = 0 \<and>
   allocateHuffmanCodeLengths (fresh [5]) 0 = Some (fresh [1]) \<and> \<not> (1 :: int) \<le> 0"
proof -
  have "ceil_log2 (length [5 :: int]) = 0"
    by code_simp
  moreover have "allocateHuffmanCodeLengths (fresh [5]) 0 = Some (fresh [1])"
    by (simp add: allocateHuffmanCodeLengths_def fresh_def wr_def in_range_def)
  ultimately show ?thesis
    by simp
qed


text \<open>
  C5, as stated, fails. With \<open>maximumLength = 1\<close>, below \<open>ceil (log2 5) = 3\<close>, pass 2 leaves
  3 nodes to relocate on \<open>[1, 1, 1, 1, 1]\<close>, the limited assigner is entered with the insert
  depth \<open>1 - fls 2 = -1\<close> and writes six lengths into the buffer of five, the last one at
  index \<open>-1\<close>. The same happens with the insert depth 0 on the sorted frequencies
  \<open>[2, 3, 3, 6, 11, 15, 19, 42]\<close> with \<open>maximumLength = 3 = ceil (log2 8)\<close>.
\<close>

theorem C5_write_below_zero:
  "ceil_log2 5 = 3 \<and>
   allocateHuffmanCodeLengths (fresh [1, 1, 1, 1, 1]) 1 =
     Some \<lparr>arr = [2, 2, 2, 2, 2], oob = True\<rparr> \<and>
   sorted [2 :: int, 3, 3, 6, 11, 15, 19, 42] \<and> ceil_log2 8 = 3 \<and>
   allocateHuffmanCodeLengths (fresh [2, 3, 3, 6, 11, 15, 19, 42]) 3 =
     Some \<lparr>arr = [3, 3, 3, 3, 3, 2, 2, 2], oob = True\<rparr>"
proof -
  have "ceil_log2 5 = 3" "ceil_log2 8 = 3"
    by code_simp+
  moreover have "allocateHuffmanCodeLengths (fresh [1, 1, 1, 1, 1]) 1 =
      Some \<lparr>arr = [2, 2, 2, 2, 2], oob = True\<rparr>"
    by code_simp
  moreover have "allocateHuffmanCodeLengths (fresh [2, 3, 3, 6, 11, 15, 19, 42]) 3 =
      Some \<lparr>arr = [3, 3, 3, 3, 3, 2, 2, 2], oob = True\<rparr>"
    by code_simp
  ultimately show ?thesis
    by simp
qed

section \<open>The operators inside 32 bits, and the search of \<^verbatim>\<open>first\<close>\<close>

text \<open>
  Below \<open>2^30\<close> elements the shifts by one that the code uses are exact. \<open>ptr a k\<close> is the
  pointer \<^verbatim>\<open>array[k] % length\<close> that the searches compare with their limit.
\<close>

lemma to_int32_id: "- 2147483648 \<le> x \<Longrightarrow> x < 2147483648 \<Longrightarrow> to_int32 x = x"
  by (simp add: to_int32_def)

lemma js_sar_1: "- 2147483648 \<le> x \<Longrightarrow> x < 2147483648 \<Longrightarrow> js_sar x 1 = x div 2"
  by (simp add: js_sar_def to_int32_id)

lemma js_shl_1: "- 1073741824 \<le> x \<Longrightarrow> x < 1073741824 \<Longrightarrow> js_shl x 1 = 2 * x"
  by (simp add: js_shl_def to_int32_id)

lemma js_rem_nonneg: "0 \<le> a \<Longrightarrow> js_rem a b = a mod \<bar>b\<bar>"
  by (cases "a = 0") (simp_all add: js_rem_def)

definition ptr :: "int list \<Rightarrow> int \<Rightarrow> int" where
  "ptr a k = js_rem (a ! nat k) (int (length a))"

lemma points_beyond_iff: "points_beyond s i limit \<longleftrightarrow> in_range s i \<and> limit < ptr (arr s) i"
  by (simp add: points_beyond_def rd_def ptr_def)

lemma touch_in_range [simp]: "in_range s i \<Longrightarrow> touch s i = s"
  by (simp add: touch_def)

lemma first_gallop_spec:
  assumes "0 \<le> ntm" "i \<le> limit" "limit < int (length (arr s))"
  shows "\<exists>i' k'. first_gallop s limit ntm i k = Some (i', k', s) \<and>
           (i' < ntm \<or> \<not> points_beyond s i' limit) \<and> i' \<le> i \<and>
           ((k' = k \<and> i' = i) \<or>
            (points_beyond s k' limit \<and> i' < k' \<and> k' \<le> i \<and> ntm \<le> k'))"
  using assms
proof (induction "nat (i - ntm + 1)" arbitrary: i k rule: less_induct)
  case less
  show ?case
  proof (cases "ntm \<le> i")
    case False
    then show ?thesis
      by (subst first_gallop.simps) auto
  next
    case True
    then have r: "in_range s i"
      using less.prems by (simp add: in_range_def)
    show ?thesis
    proof (cases "points_beyond s i limit")
      case False
      then show ?thesis
        using True r by (subst first_gallop.simps) auto
    next
      case pb: True
      let ?j = "i - (limit - i + 1)"
      have "nat (?j - ntm + 1) < nat (i - ntm + 1)" "?j \<le> limit"
        using True less.prems by auto
      from less.hyps [OF this(1) less.prems(1) this(2) less.prems(3), of i]
      obtain i' k' where
        st: "first_gallop s limit ntm ?j i = Some (i', k', s)"
        and a: "i' < ntm \<or> \<not> points_beyond s i' limit" "i' \<le> ?j"
        and b: "(k' = i \<and> i' = ?j) \<or> (points_beyond s k' limit \<and> i' < k' \<and> k' \<le> ?j \<and> ntm \<le> k')"
        by blast
      have "first_gallop s limit ntm i k = Some (i', k', s)"
        using True pb r st by (subst first_gallop.simps) simp
      moreover have "i' \<le> i" "?j < i"
        using a less.prems by auto
      ultimately show ?thesis
        using a b pb True by auto
    qed
  qed
qed

lemma first_bisect_spec:
  assumes "- 1 \<le> i" "i < k" "k < int (length (arr s))" "int (length (arr s)) < 1073741824"
  shows "\<exists>k'. first_bisect s limit i k = Some (k', s) \<and> i < k' \<and> k' \<le> k \<and>
           (k' = k \<or> points_beyond s k' limit) \<and>
           (k' - 1 = i \<or> \<not> points_beyond s (k' - 1) limit)"
  using assms
proof (induction "nat (k - i)" arbitrary: i k rule: less_induct)
  case less
  show ?case
  proof (cases "i + 1 < k")
    case False
    then have "k = i + 1"
      using less.prems by simp
    then show ?thesis
      by (subst first_bisect.simps) auto
  next
    case True
    let ?t = "(i + k) div 2"
    have sar: "js_sar (i + k) 1 = ?t"
      using less.prems by (intro js_sar_1) auto
    have t: "i < ?t" "?t < k"
      using True by auto
    then have r: "in_range s ?t"
      using less.prems by (auto simp: in_range_def)
    show ?thesis
    proof (cases "points_beyond s ?t limit")
      case pb: True
      have m: "nat (?t - i) < nat (k - i)"
        using t by auto
      have "?t < int (length (arr s))"
        using t less.prems by auto
      from less.hyps [OF m less.prems(1) t(1) this less.prems(4)]
      obtain k' where st: "first_bisect s limit i ?t = Some (k', s)"
        and a: "i < k'" "k' \<le> ?t" "k' = ?t \<or> points_beyond s k' limit"
          "k' - 1 = i \<or> \<not> points_beyond s (k' - 1) limit"
        by blast
      have "first_bisect s limit i k = Some (k', s)"
        using True pb r st sar by (subst first_bisect.simps) (simp add: Let_def)
      then show ?thesis
        using a t pb by auto
    next
      case npb: False
      have m: "nat (k - ?t) < nat (k - i)"
        using t by auto
      have "- 1 \<le> ?t"
        using t less.prems by auto
      from less.hyps [OF m this t(2) less.prems(3) less.prems(4)]
      obtain k' where st: "first_bisect s limit ?t k = Some (k', s)"
        and a: "?t < k'" "k' \<le> k" "k' = k \<or> points_beyond s k' limit"
          "k' - 1 = ?t \<or> \<not> points_beyond s (k' - 1) limit"
        by blast
      have "first_bisect s limit i k = Some (k', s)"
        using True npb r st sar by (subst first_bisect.simps) (simp add: Let_def)
      then show ?thesis
        using a t npb by auto
    qed
  qed
qed

lemma first_spec:
  assumes "0 \<le> ntm" "ntm \<le> limit" "limit < int (length (arr s))"
    "int (length (arr s)) < 1073741824" "points_beyond s limit limit"
  shows "\<exists>k. first s limit ntm = Some (k, s) \<and> ntm \<le> k \<and> k \<le> limit \<and>
           points_beyond s k limit \<and> (k = ntm \<or> \<not> points_beyond s (k - 1) limit)"
proof -
  from first_gallop_spec [OF assms(1) order_refl assms(3), of "int (length (arr s)) - 2"]
  obtain i' k' where
    g: "first_gallop s limit ntm limit (int (length (arr s)) - 2) = Some (i', k', s)"
    and a: "i' < ntm \<or> \<not> points_beyond s i' limit" "i' \<le> limit"
    and b: "(k' = int (length (arr s)) - 2 \<and> i' = limit) \<or>
            (points_beyond s k' limit \<and> i' < k' \<and> k' \<le> limit \<and> ntm \<le> k')"
    by blast
  from a b assms have c: "points_beyond s k' limit" "i' < k'" "k' \<le> limit" "ntm \<le> k'"
    by auto
  let ?i = "max (ntm - 1) i'"
  have "- 1 \<le> ?i" "?i < k'" "k' < int (length (arr s))"
    using assms c by auto
  from first_bisect_spec [OF this assms(4), of limit]
  obtain k where bs: "first_bisect s limit ?i k' = Some (k, s)"
    and d: "?i < k" "k \<le> k'" "k = k' \<or> points_beyond s k limit"
      "k - 1 = ?i \<or> \<not> points_beyond s (k - 1) limit"
    by blast
  have "first s limit ntm = Some (k, s)"
    using g bs by (simp add: first_def)
  moreover have "k = ntm \<or> \<not> points_beyond s (k - 1) limit"
    using d a by (auto simp: max_def split: if_splits)
  ultimately show ?thesis
    using c d by auto
qed

section \<open>The extended parent pointer form\<close>

text \<open>
  The form pass 1 leaves behind. Every slot \<open>k\<close> below \<open>n - 2\<close> holds the index \<open>p\<close> of a later
  internal node, \<open>k < p \<le> n - 2\<close>, either as \<open>p\<close> or as \<open>p + n\<close>; along the slots the keys
  \<open>2 p\<close> (for \<open>p\<close>) and \<open>2 p + 1\<close> (for \<open>p + n\<close>) increase strictly, so that a node is
  pointed to at most twice, first plainly and then with \<open>n\<close> added. \<open>prefix_ok a h t\<close> says
  this of the slots below \<open>h\<close>, with pointers below \<open>t\<close>.
\<close>

definition raw_ok :: "int \<Rightarrow> int \<Rightarrow> int \<Rightarrow> int \<Rightarrow> bool" where
  "raw_ok n t k v \<longleftrightarrow> (k < v \<and> v < t) \<or> (k + n < v \<and> v < t + n)"

definition key :: "int \<Rightarrow> int \<Rightarrow> int" where
  "key n v = (if v < n then 2 * v else 2 * (v - n) + 1)"

definition prefix_ok :: "int list \<Rightarrow> int \<Rightarrow> int \<Rightarrow> bool" where
  "prefix_ok a h t \<longleftrightarrow>
     (\<forall>k. 0 \<le> k \<and> k < h \<longrightarrow> raw_ok (int (length a)) t k (a ! nat k)) \<and>
     (\<forall>k. 0 \<le> k \<and> k + 1 < h \<longrightarrow>
        key (int (length a)) (a ! nat k) < key (int (length a)) (a ! nat (k + 1)))"

definition pp :: "int list \<Rightarrow> bool" where
  "pp a \<longleftrightarrow> 3 \<le> length a \<and> prefix_ok a (int (length a) - 2) (int (length a) - 1)"

lemma prefix_ok_mono: "prefix_ok a h t \<Longrightarrow> t \<le> t' \<Longrightarrow> prefix_ok a h t'"
  by (fastforce simp: prefix_ok_def raw_ok_def)

lemma prefix_ok_update_above:
  "prefix_ok a h t \<Longrightarrow> h \<le> j \<Longrightarrow> prefix_ok (a[nat j := v]) h t"
  by (auto simp: prefix_ok_def nth_list_update)

lemma prefix_ok_first:
  assumes "prefix_ok a h t" "0 \<le> h" "h < t" "t < int (length a)"
  shows "prefix_ok (a[nat h := t]) (h + 1) (t + 1)"
  unfolding prefix_ok_def
proof (intro conjI allI impI)
  fix k assume k: "0 \<le> k \<and> k < h + 1"
  show "raw_ok (int (length (a[nat h := t]))) (t + 1) k (a[nat h := t] ! nat k)"
  proof (cases "k = h")
    case True
    then show ?thesis using assms by (simp add: raw_ok_def)
  next
    case False
    then have "raw_ok (int (length a)) t k (a ! nat k)"
      using k assms(1) by (simp add: prefix_ok_def)
    then show ?thesis
      using False k by (auto simp: raw_ok_def nth_list_update)
  qed
next
  fix k assume k: "0 \<le> k \<and> k + 1 < h + 1"
  show "key (int (length (a[nat h := t]))) (a[nat h := t] ! nat k)
      < key (int (length (a[nat h := t]))) (a[nat h := t] ! nat (k + 1))"
  proof (cases "k + 1 = h")
    case True
    have "raw_ok (int (length a)) t k (a ! nat k)"
      using k assms(1) by (simp add: prefix_ok_def)
    then show ?thesis
      using True k assms by (auto simp: raw_ok_def key_def nth_list_update)
  next
    case False
    then have "key (int (length a)) (a ! nat k) < key (int (length a)) (a ! nat (k + 1))"
      using k assms(1) by (simp add: prefix_ok_def)
    then show ?thesis
      using False k by (auto simp: nth_list_update)
  qed
qed

lemma prefix_ok_second:
  assumes "prefix_ok a h t" "0 \<le> h" "h < t" "t < int (length a)"
  shows "prefix_ok (a[nat h := t + int (length a)]) (h + 1) (t + 1)"
  unfolding prefix_ok_def
proof (intro conjI allI impI)
  fix k assume k: "0 \<le> k \<and> k < h + 1"
  show "raw_ok (int (length (a[nat h := t + int (length a)]))) (t + 1) k
          (a[nat h := t + int (length a)] ! nat k)"
  proof (cases "k = h")
    case True
    then show ?thesis using assms by (simp add: raw_ok_def)
  next
    case False
    then have "raw_ok (int (length a)) t k (a ! nat k)"
      using k assms(1) by (simp add: prefix_ok_def)
    then show ?thesis
      using False k by (auto simp: raw_ok_def nth_list_update)
  qed
next
  fix k assume k: "0 \<le> k \<and> k + 1 < h + 1"
  show "key (int (length (a[nat h := t + int (length a)])))
          (a[nat h := t + int (length a)] ! nat k)
      < key (int (length (a[nat h := t + int (length a)])))
          (a[nat h := t + int (length a)] ! nat (k + 1))"
  proof (cases "k + 1 = h")
    case True
    have "raw_ok (int (length a)) t k (a ! nat k)"
      using k assms(1) by (simp add: prefix_ok_def)
    then show ?thesis
      using True k assms by (auto simp: raw_ok_def key_def nth_list_update)
  next
    case False
    then have "key (int (length a)) (a ! nat k) < key (int (length a)) (a ! nat (k + 1))"
      using k assms(1) by (simp add: prefix_ok_def)
    then show ?thesis
      using False k by (auto simp: nth_list_update)
  qed
qed

lemma prefix_ok_both:
  assumes "prefix_ok a h t" "0 \<le> h" "h + 1 < t" "t < int (length a)"
  shows "prefix_ok (a[nat h := t, nat (h + 1) := t + int (length a)]) (h + 2) (t + 1)"
  unfolding prefix_ok_def
proof (intro conjI allI impI)
  let ?b = "a[nat h := t, nat (h + 1) := t + int (length a)]"
  fix k assume k: "0 \<le> k \<and> k < h + 2"
  show "raw_ok (int (length ?b)) (t + 1) k (?b ! nat k)"
  proof (cases "k = h \<or> k = h + 1")
    case True
    then show ?thesis using assms by (auto simp: raw_ok_def nth_list_update)
  next
    case False
    then have "raw_ok (int (length a)) t k (a ! nat k)"
      using k assms(1) by (simp add: prefix_ok_def)
    then show ?thesis
      using False k by (auto simp: raw_ok_def nth_list_update)
  qed
next
  let ?b = "a[nat h := t, nat (h + 1) := t + int (length a)]"
  fix k assume k: "0 \<le> k \<and> k + 1 < h + 2"
  show "key (int (length ?b)) (?b ! nat k) < key (int (length ?b)) (?b ! nat (k + 1))"
  proof (cases "k = h")
    case True
    then show ?thesis
      using assms by (auto simp: key_def nth_list_update)
  next
    case nh: False
    show ?thesis
    proof (cases "k + 1 = h")
      case True
      have "raw_ok (int (length a)) t k (a ! nat k)"
        using k True assms(1) by (simp add: prefix_ok_def)
      then show ?thesis
        using True k assms by (auto simp: raw_ok_def key_def nth_list_update)
    next
      case False
      then have "key (int (length a)) (a ! nat k) < key (int (length a)) (a ! nat (k + 1))"
        using k nh assms(1) by (simp add: prefix_ok_def)
      then show ?thesis
        using False nh k by (auto simp: nth_list_update)
    qed
  qed
qed

section \<open>Pass 1 establishes the form\<close>

definition sepp_inv :: "buf \<Rightarrow> int \<Rightarrow> int \<Rightarrow> int \<Rightarrow> bool" where
  "sepp_inv s h t p \<longleftrightarrow>
     0 \<le> h \<and> h < t \<and> t < int (length (arr s)) \<and> p \<le> int (length (arr s)) \<and>
     h + p = 2 * t \<and> prefix_ok (arr s) h t"

lemma sepp_step_cases:
  assumes "0 \<le> h" "h < t" "t < int (length (arr s)) - 1" "p \<le> int (length (arr s))"
    "h + p = 2 * t"
  shows
    "(\<exists>v. sepp_step s h t p =
        (s\<lparr>arr := (arr s)[nat h := t, nat (h + 1) := t + int (length (arr s)), nat t := v]\<rparr>,
         h + 2, p) \<and> h + 1 < t) \<or>
     (\<exists>v. sepp_step s h t p = (s\<lparr>arr := (arr s)[nat h := t, nat t := v]\<rparr>, h + 1, p + 1)
        \<and> p < int (length (arr s))) \<or>
     (\<exists>v. sepp_step s h t p =
        (s\<lparr>arr := (arr s)[nat h := t + int (length (arr s)), nat t := v]\<rparr>, h + 1, p + 1)
        \<and> p < int (length (arr s))) \<or>
     (\<exists>v. sepp_step s h t p = (s\<lparr>arr := (arr s)[nat t := v]\<rparr>, h, p + 2)
        \<and> p + 1 < int (length (arr s)))"
proof (cases "p \<ge> int (length (arr s)) \<or> lt_undef (rd s h) (rd s p)")
  case c1: True
  show ?thesis
  proof (cases "p \<ge> int (length (arr s)) \<or>
      (h + 1 < t \<and> lt_undef (rd (wr s h t) (h + 1)) (rd (wr s h t) p))")
    case c2: True
    have h1: "h + 1 < t"
      using c2 assms by auto
    have "\<exists>v. sepp_step s h t p =
        (s\<lparr>arr := (arr s)[nat h := t, nat (h + 1) := t + int (length (arr s)), nat t := v]\<rparr>,
         h + 2, p)"
      using c1 c2 h1 assms
      by (auto simp: sepp_step_def Let_def wr_def touch_def in_range_def)
    then show ?thesis
      using h1 by blast
  next
    case c2: False
    then have pn: "p < int (length (arr s))"
      by auto
    have "\<exists>v. sepp_step s h t p = (s\<lparr>arr := (arr s)[nat h := t, nat t := v]\<rparr>, h + 1, p + 1)"
      using c1 c2 pn assms
      by (auto simp: sepp_step_def Let_def wr_def touch_def in_range_def)
    then show ?thesis
      using pn by blast
  qed
next
  case c1: False
  then have pn: "p < int (length (arr s))"
    by auto
  show ?thesis
  proof (cases "p + 1 \<ge> int (length (arr s)) \<or> (h < t \<and> lt_undef (rd s h) (rd s (p + 1)))")
    case c2: True
    have "\<exists>v. sepp_step s h t p =
        (s\<lparr>arr := (arr s)[nat h := t + int (length (arr s)), nat t := v]\<rparr>, h + 1, p + 1)"
      using c1 c2 pn assms
      by (auto simp: sepp_step_def Let_def wr_def touch_def in_range_def)
    then show ?thesis
      using pn by blast
  next
    case c2: False
    then have pn1: "p + 1 < int (length (arr s))"
      by auto
    have "\<exists>v. sepp_step s h t p = (s\<lparr>arr := (arr s)[nat t := v]\<rparr>, h, p + 2)"
      using c1 c2 pn pn1 assms
      by (auto simp: sepp_step_def Let_def wr_def touch_def in_range_def)
    then show ?thesis
      using pn1 by blast
  qed
qed

lemma sepp_step_inv:
  assumes inv: "sepp_inv s h t p" and lt: "t < int (length (arr s)) - 1"
    and st: "sepp_step s h t p = (s', h', p')"
  shows "sepp_inv s' h' (t + 1) p' \<and> oob s' = oob s"
proof -
  let ?n = "int (length (arr s))"
  from inv have h: "0 \<le> h" "h < t" "t < ?n" "p \<le> ?n" "h + p = 2 * t"
    and pre: "prefix_ok (arr s) h t"
    by (simp_all add: sepp_inv_def)
  consider
    (hh) v where "s' = s\<lparr>arr := (arr s)[nat h := t, nat (h + 1) := t + ?n, nat t := v]\<rparr>"
      "h' = h + 2" "p' = p" "h + 1 < t"
  | (ht) v where "s' = s\<lparr>arr := (arr s)[nat h := t, nat t := v]\<rparr>"
      "h' = h + 1" "p' = p + 1" "p < ?n"
  | (th) v where "s' = s\<lparr>arr := (arr s)[nat h := t + ?n, nat t := v]\<rparr>"
      "h' = h + 1" "p' = p + 1" "p < ?n"
  | (tt) v where "s' = s\<lparr>arr := (arr s)[nat t := v]\<rparr>"
      "h' = h" "p' = p + 2" "p + 1 < ?n"
    using sepp_step_cases [OF h(1) h(2) lt h(4) h(5)] st by auto
  then show ?thesis
  proof cases
    case hh
    have "prefix_ok ((arr s)[nat h := t, nat (h + 1) := t + ?n, nat t := v]) (h + 2) (t + 1)"
      using prefix_ok_update_above [OF prefix_ok_both [OF pre h(1) hh(4) h(3)], of t v] hh(4)
      by simp
    then show ?thesis
      using hh h by (simp add: sepp_inv_def)
  next
    case ht
    have "prefix_ok ((arr s)[nat h := t, nat t := v]) (h + 1) (t + 1)"
      using prefix_ok_update_above [OF prefix_ok_first [OF pre h(1) h(2) h(3)], of t v] h(2)
      by simp
    then show ?thesis
      using ht h by (simp add: sepp_inv_def)
  next
    case th
    have "prefix_ok ((arr s)[nat h := t + ?n, nat t := v]) (h + 1) (t + 1)"
      using prefix_ok_update_above [OF prefix_ok_second [OF pre h(1) h(2) h(3)], of t v] h(2)
      by simp
    then show ?thesis
      using th h by (simp add: sepp_inv_def)
  next
    case tt
    have "prefix_ok ((arr s)[nat t := v]) h (t + 1)"
      using prefix_ok_update_above [OF prefix_ok_mono [OF pre, of "t + 1"], of t v] h(2)
      by simp
    then show ?thesis
      using tt h by (simp add: sepp_inv_def)
  qed
qed


lemma sepp_loop_inv:
  assumes "sepp_inv s h t p"
  shows "\<exists>h' p'. sepp_inv (sepp_loop s h t p) h' (int (length (arr s)) - 1) p' \<and>
           oob (sepp_loop s h t p) = oob s"
  using assms
proof (induction s h t p rule: sepp_loop.induct)
  case (1 s h t p)
  show ?case
  proof (cases "t < int (length (arr s)) - 1")
    case True
    obtain s' h' p' where st: "sepp_step s h t p = (s', h', p')"
      by (cases "sepp_step s h t p") auto
    from sepp_step_inv [OF "1.prems" True st]
    have inv': "sepp_inv s' h' (t + 1) p'" and o: "oob s' = oob s"
      by simp_all
    have len: "length (arr s') = length (arr s)"
      using length_sepp_step [of s h t p] st by simp
    from "1.IH" [OF True st [symmetric] refl inv'] len o
    have "\<exists>h'' p''. sepp_inv (sepp_loop s' h' (t + 1) p') h'' (int (length (arr s)) - 1) p'' \<and>
        oob (sepp_loop s' h' (t + 1) p') = oob s"
      by simp
    then show ?thesis
      using True st by (simp add: sepp_loop.simps [of s h t p])
  next
    case False
    then have t: "t = int (length (arr s)) - 1"
      using "1.prems" by (simp add: sepp_inv_def)
    have "sepp_loop s h t p = s"
      using False by (simp add: sepp_loop.simps [of s h t p])
    then show ?thesis
      using t "1.prems" by auto
  qed
qed


lemma setExtendedParentPointers_pp:
  assumes "3 \<le> length (arr s)"
  shows "pp (arr (setExtendedParentPointers s)) \<and>
         oob (setExtendedParentPointers s) = oob s"
proof -
  let ?s0 = "wr (touch (touch s 0) 1) 0 (val s 0 + val s 1)"
  have r: "in_range s 0" "in_range s 1"
    using assms by (auto simp: in_range_def)
  then have s0: "length (arr ?s0) = length (arr s)" "oob ?s0 = oob s"
    by (simp_all add: wr_def)
  have "sepp_inv ?s0 0 1 2"
    using assms s0 by (auto simp: sepp_inv_def prefix_ok_def)
  from sepp_loop_inv [OF this] obtain h' p' where
    inv: "sepp_inv (sepp_loop ?s0 0 1 2) h' (int (length (arr s)) - 1) p'"
    and o: "oob (sepp_loop ?s0 0 1 2) = oob s"
    using s0 by auto
  let ?r = "sepp_loop ?s0 0 1 2"
  have len: "length (arr ?r) = length (arr s)"
    using s0 by simp
  from inv len have b: "h' < int (length (arr s)) - 1" "p' \<le> int (length (arr s))"
    "h' + p' = 2 * (int (length (arr s)) - 1)"
    and pre: "prefix_ok (arr ?r) h' (int (length (arr s)) - 1)"
    by (simp_all add: sepp_inv_def)
  from b have "h' = int (length (arr s)) - 2"
    by arith
  then have "pp (arr ?r)"
    using pre len assms by (simp add: pp_def)
  then show ?thesis
    using o by (simp add: setExtendedParentPointers_def)
qed

section \<open>Pointers of a buffer in extended parent pointer form\<close>

lemma pp_raw:
  assumes "pp a" "0 \<le> k" "k \<le> int (length a) - 3"
  shows "raw_ok (int (length a)) (int (length a) - 1) k (a ! nat k)"
  using assms by (simp add: pp_def prefix_ok_def)

lemma pp_key_step:
  assumes "pp a" "0 \<le> k" "k + 1 \<le> int (length a) - 3"
  shows "key (int (length a)) (a ! nat k) < key (int (length a)) (a ! nat (k + 1))"
  using assms by (simp add: pp_def prefix_ok_def)

lemma pp_key_mono:
  assumes "pp a" "0 \<le> k" "k \<le> k'" "k' \<le> int (length a) - 3"
  shows "key (int (length a)) (a ! nat k) + (k' - k) \<le> key (int (length a)) (a ! nat k')"
proof -
  have "k + int j \<le> int (length a) - 3 \<Longrightarrow>
      key (int (length a)) (a ! nat k) + int j \<le> key (int (length a)) (a ! nat (k + int j))" for j
  proof (induction j)
    case 0
    then show ?case by simp
  next
    case (Suc j)
    have "key (int (length a)) (a ! nat (k + int j))
        < key (int (length a)) (a ! nat (k + int j + 1))"
      using pp_key_step [OF assms(1), of "k + int j"] assms(2) Suc.prems by simp
    moreover have "key (int (length a)) (a ! nat k) + int j
        \<le> key (int (length a)) (a ! nat (k + int j))"
      using Suc by simp
    moreover have "k + int (Suc j) = k + int j + 1"
      by simp
    ultimately show ?case
      by (simp only:)
  qed
  from this [of "nat (k' - k)"] show ?thesis
    using assms by simp
qed

lemma ptr_of_raw:
  assumes "raw_ok n t k v" "0 \<le> k" "t \<le> n"
  shows "js_rem v n = (if v < n then v else v - n)" "k < js_rem v n" "js_rem v n < t"
    "key n v = 2 * js_rem v n + (if v < n then 0 else 1)"
proof -
  from assms consider "k < v" "v < t" | "k + n < v" "v < t + n"
    by (auto simp: raw_ok_def)
  then have "js_rem v n = (if v < n then v else v - n) \<and> k < js_rem v n \<and> js_rem v n < t \<and>
      key n v = 2 * js_rem v n + (if v < n then 0 else 1)"
  proof cases
    case 1
    then have "0 \<le> v" "v < n"
      using assms by auto
    then have "js_rem v n = v"
      by (simp add: js_rem_nonneg)
    then show ?thesis
      using 1 \<open>v < n\<close> by (simp add: key_def)
  next
    case 2
    then have v: "n \<le> v" "v - n < n" "0 \<le> v - n" "0 \<le> v"
      using assms by auto
    have "v mod n = v - n"
      using v by (metis minus_mod_self2 mod_pos_pos_trivial)
    then have "js_rem v n = v - n"
      using v assms by (simp add: js_rem_nonneg)
    then show ?thesis
      using 2 v by (simp add: key_def)
  qed
  then show "js_rem v n = (if v < n then v else v - n)" "k < js_rem v n" "js_rem v n < t"
    "key n v = 2 * js_rem v n + (if v < n then 0 else 1)"
    by simp_all
qed

lemma pp_ptr:
  assumes "pp a" "0 \<le> k" "k \<le> int (length a) - 3"
  shows "k < ptr a k" "ptr a k \<le> int (length a) - 2"
    "key (int (length a)) (a ! nat k) =
       2 * ptr a k + (if a ! nat k < int (length a) then 0 else 1)"
    "a ! nat k = (if a ! nat k < int (length a) then ptr a k else ptr a k + int (length a))"
  using ptr_of_raw [OF pp_raw [OF assms] assms(2), simplified] unfolding ptr_def
  by (simp_all split: if_splits)

lemma pp_ptr_mono:
  assumes "pp a" "0 \<le> k" "k \<le> k'" "k' \<le> int (length a) - 3"
  shows "ptr a k \<le> ptr a k'"
  using pp_key_mono [OF assms] pp_ptr(3) [OF assms(1), of k] pp_ptr(3) [OF assms(1), of k'] assms
  by (simp split: if_splits)

text \<open>The slots \<open>k .. k'\<close> hold at most \<open>key k' - key k + 1\<close> pointers.\<close>

lemma pp_count:
  assumes "pp a" "0 \<le> k" "k \<le> k'" "k' \<le> int (length a) - 3"
    "lo \<le> key (int (length a)) (a ! nat k)" "ptr a k' < hi"
  shows "k' - k + 1 \<le> 2 * hi - lo"
  using pp_key_mono [OF assms(1-4)] pp_ptr(3) [OF assms(1), of k'] assms
  by (simp split: if_splits)

section \<open>The level boundaries of the tree\<close>

text \<open>The least slot below \<open>F\<close> whose pointer reaches \<open>F\<close> (\<open>F\<close> itself when there is none).\<close>

definition nl :: "int list \<Rightarrow> int \<Rightarrow> int" where
  "nl a F = int (length (takeWhile (\<lambda>k. ptr a k < F) [0..F - 1]))"

text \<open>The boundaries of the levels of the tree: the root, then level by level downwards.\<close>

primrec lv :: "int list \<Rightarrow> nat \<Rightarrow> int" where
  "lv a 0 = int (length a) - 2"
| "lv a (Suc j) = nl a (lv a j)"

lemma nl_props:
  assumes "0 \<le> F"
  shows "0 \<le> nl a F" "nl a F \<le> F"
    "\<And>j. 0 \<le> j \<Longrightarrow> j < nl a F \<Longrightarrow> ptr a j < F"
    "nl a F < F \<Longrightarrow> F \<le> ptr a (nl a F)"
proof -
  let ?P = "\<lambda>k. ptr a k < F"
  let ?xs = "[0..F - 1]"
  have len: "int (length ?xs) = F"
    using assms by simp
  show "0 \<le> nl a F"
    by (simp add: nl_def)
  show le: "nl a F \<le> F"
    using length_takeWhile_le [of ?P ?xs] len unfolding nl_def by linarith
  show "ptr a j < F" if "0 \<le> j" "j < nl a F" for j
  proof -
    have j: "nat j < length (takeWhile ?P ?xs)"
      using that by (simp add: nl_def)
    then have "takeWhile ?P ?xs ! nat j \<in> set (takeWhile ?P ?xs)"
      by simp
    then have "?P (takeWhile ?P ?xs ! nat j)"
      using set_takeWhileD by metis
    moreover have "takeWhile ?P ?xs ! nat j = ?xs ! nat j"
      using j by (rule takeWhile_nth)
    moreover have "?xs ! nat j = j"
      using that le len j by (simp add: nl_def)
    ultimately show ?thesis
      by simp
  qed
  show "F \<le> ptr a (nl a F)" if "nl a F < F"
  proof -
    have l: "length (takeWhile ?P ?xs) < length ?xs"
      using that len unfolding nl_def by linarith
    then have "\<not> ?P (?xs ! length (takeWhile ?P ?xs))"
      by (rule nth_length_takeWhile)
    moreover have "?xs ! length (takeWhile ?P ?xs) = nl a F"
      using l by (simp add: nl_def)
    ultimately show ?thesis
      by simp
  qed
qed

lemma nl_unique:
  assumes "0 \<le> k" "k \<le> F" "\<And>j. 0 \<le> j \<Longrightarrow> j < k \<Longrightarrow> ptr a j < F"
    "k < F \<Longrightarrow> F \<le> ptr a k"
  shows "nl a F = k"
proof -
  have F: "0 \<le> F"
    using assms by simp
  have "\<not> nl a F < k"
    using nl_props(4) [OF F, of a] nl_props(1) [OF F, of a] assms(2,3) by force
  moreover have "\<not> k < nl a F"
    using nl_props(3) [OF F assms(1), of a] nl_props(2) [OF F, of a] assms(2,4) by force
  ultimately show ?thesis
    by simp
qed

lemma nl_0 [simp]: "nl a 0 = 0"
  by (simp add: nl_def)

lemma nl_mono:
  assumes "0 \<le> F1" "F1 \<le> F2"
  shows "nl a F1 \<le> nl a F2"
proof (rule ccontr)
  assume "\<not> nl a F1 \<le> nl a F2"
  then have lt: "nl a F2 < nl a F1"
    by simp
  have F2: "0 \<le> F2"
    using assms by simp
  have "nl a F2 < F2"
    using lt nl_props(2) [OF assms(1), of a] assms(2) by simp
  then have "F2 \<le> ptr a (nl a F2)"
    by (rule nl_props(4) [OF F2])
  moreover have "ptr a (nl a F2) < F1"
    using nl_props(3) [OF assms(1) nl_props(1) [OF F2] lt] .
  ultimately show False
    using assms by simp
qed

lemma nl_less:
  assumes "pp a" "1 \<le> F" "F \<le> int (length a) - 2"
  shows "nl a F < F"
proof (rule ccontr)
  assume "\<not> nl a F < F"
  then have "nl a F = F"
    using nl_props(2) [of F a] assms by simp
  then have "ptr a (F - 1) < F"
    using nl_props(3) [of F "F - 1" a] assms by simp
  then show False
    using pp_ptr(1) [OF assms(1), of "F - 1"] assms by simp
qed

lemma lv_bounds:
  assumes "pp a"
  shows "0 \<le> lv a j \<and> lv a j \<le> int (length a) - 2"
proof (induction j)
  case 0
  then show ?case
    using assms by (simp add: pp_def)
next
  case (Suc j)
  then show ?case
    using nl_props(1,2) [of "lv a j" a] by simp
qed

lemma lv_Suc_less:
  assumes "pp a" "0 < lv a j"
  shows "lv a (Suc j) < lv a j"
  using nl_less [OF assms(1), of "lv a j"] lv_bounds [OF assms(1), of j] assms(2) by simp

lemma lv_Suc_le:
  assumes "pp a"
  shows "lv a (Suc j) \<le> lv a j"
  using nl_props(2) [of "lv a j" a] lv_bounds [OF assms, of j] by simp

lemma lv_antimono:
  assumes "pp a" "i \<le> j"
  shows "lv a j \<le> lv a i"
  using assms(2)
proof (induction j)
  case 0
  then show ?case by simp
next
  case (Suc j)
  then show ?case
    using lv_Suc_le [OF assms(1), of j] by (cases "i = Suc j") auto
qed

lemma lv_zero:
  assumes "pp a" "lv a i = 0" "i \<le> j"
  shows "lv a j = 0"
  using lv_antimono [OF assms(1,3)] lv_bounds [OF assms(1), of j] assms(2) by simp

lemma ptr_agree:
  assumes "length b = length a" "b ! nat j = a ! nat j"
  shows "ptr b j = ptr a j"
  using assms by (simp add: ptr_def)

lemma first_nl:
  assumes pp: "pp a" and n: "int (length a) < 1073741824" and len: "length (arr s) = length a"
    and agree: "\<And>j. 0 \<le> j \<Longrightarrow> j < F \<Longrightarrow> arr s ! nat j = a ! nat j"
    and ntm: "0 \<le> ntm" "ntm < F" and F: "F \<le> int (length a) - 2"
  shows "first s (F - 1) ntm = Some (max ntm (nl a F), s)"
proof -
  have pb: "points_beyond s j (F - 1) \<longleftrightarrow> F \<le> ptr a j" if "0 \<le> j" "j < F" for j
  proof -
    have "in_range s j"
      using that F len by (simp add: in_range_def)
    moreover have "ptr (arr s) j = ptr a j"
      using ptr_agree [OF len agree [OF that]] .
    ultimately show ?thesis
      by (auto simp: points_beyond_iff)
  qed
  have "F \<le> ptr a (F - 1)"
    using pp_ptr(1) [OF pp, of "F - 1"] ntm F by simp
  then have "points_beyond s (F - 1) (F - 1)"
    using pb [of "F - 1"] ntm by simp
  from first_spec [OF ntm(1) _ _ _ this] ntm F n len
  obtain k where k: "first s (F - 1) ntm = Some (k, s)" "ntm \<le> k" "k \<le> F - 1"
    "points_beyond s k (F - 1)" "k = ntm \<or> \<not> points_beyond s (k - 1) (F - 1)"
    by auto
  have F0: "0 \<le> F"
    using ntm by simp
  have pk: "F \<le> ptr a k"
    using pb [of k] k ntm by simp
  have le: "nl a F \<le> k"
    using nl_props(3) [OF F0, of k a] k(2) ntm(1) pk by force
  have "max ntm (nl a F) = k"
  proof (cases "k = ntm")
    case True
    then show ?thesis
      using le by simp
  next
    case False
    then have "\<not> points_beyond s (k - 1) (F - 1)" and k1: "0 \<le> k - 1"
      using k ntm by auto
    then have lt: "ptr a (k - 1) < F"
      using pb [of "k - 1"] k by auto
    have "ptr a j < F" if "0 \<le> j" "j < k" for j
      using pp_ptr_mono [OF pp that(1), of "k - 1"] that k F lt by simp
    then have "nl a F = k"
      using pk k ntm by (intro nl_unique) auto
    then show ?thesis
      using k by simp
  qed
  then show ?thesis
    using k(1) by simp
qed

section \<open>The index \<^verbatim>\<open>first\<close> returns\<close>

lemma arr_fresh [simp]: "arr (fresh xs) = xs"
  by (simp add: fresh_def)

lemma oob_fresh [simp]: "oob (fresh xs) = False"
  by (simp add: fresh_def)



section \<open>Pass 2 and the inner write loop\<close>

text \<open>
  The state of the buffer during pass 3: the slots up to \<open>nx\<close> still hold what pass 1 left
  there (the array \<open>a\<close>), the slots above \<open>nx\<close> hold code lengths between 1 and \<open>hi\<close>, in
  non-increasing order.
\<close>

definition written :: "int list \<Rightarrow> buf \<Rightarrow> int \<Rightarrow> int \<Rightarrow> bool" where
  "written a s nx hi \<longleftrightarrow>
     length (arr s) = length a \<and> nx < int (length a) \<and>
     (\<forall>k. 0 \<le> k \<and> k \<le> nx \<longrightarrow> arr s ! nat k = a ! nat k) \<and>
     (\<forall>k. nx < k \<and> 0 \<le> k \<and> k < int (length a) \<longrightarrow> 1 \<le> arr s ! nat k \<and> arr s ! nat k \<le> hi) \<and>
     (\<forall>k k'. nx < k \<and> 0 \<le> k \<and> k \<le> k' \<and> k' < int (length a) \<longrightarrow>
        arr s ! nat k' \<le> arr s ! nat k)"

lemma arr_wr_in_range [simp]: "in_range s i \<Longrightarrow> arr (wr s i v) = (arr s)[nat i := v]"
  by (simp add: wr_def)

lemma oob_wr_in_range [simp]: "in_range s i \<Longrightarrow> oob (wr s i v) = oob s"
  by (simp add: wr_def)

lemma written_hi_mono: "written a s nx hi \<Longrightarrow> hi \<le> hi' \<Longrightarrow> written a s nx hi'"
  by (fastforce simp: written_def)

lemma written_wr:
  assumes "written a s nx hi" "hi \<le> d" "1 \<le> d"
  shows "written a (wr s nx d) (nx - 1) d"
proof (cases "0 \<le> nx")
  case True
  then have r: "in_range s nx"
    using assms(1) by (simp add: written_def in_range_def)
  have len: "length (arr s) = length a" and nx: "nx < int (length a)"
    and intact: "\<And>k. 0 \<le> k \<Longrightarrow> k \<le> nx \<Longrightarrow> arr s ! nat k = a ! nat k"
    and vals: "\<And>k. nx < k \<Longrightarrow> k < int (length a) \<Longrightarrow> 1 \<le> arr s ! nat k \<and> arr s ! nat k \<le> hi"
    and ord: "\<And>k k'. nx < k \<Longrightarrow> k \<le> k' \<Longrightarrow> k' < int (length a) \<Longrightarrow>
        arr s ! nat k' \<le> arr s ! nat k"
    using assms(1) True unfolding written_def by auto
  have nth: "arr (wr s nx d) ! nat k = (if k = nx then d else arr s ! nat k)"
    if "0 \<le> k" "k < int (length a)" for k
    using that r True len nx by (auto simp: nth_list_update)
  show ?thesis
    unfolding written_def
  proof (intro conjI allI impI)
    show "length (arr (wr s nx d)) = length a"
      using len by simp
    show "nx - 1 < int (length a)"
      using nx by simp
  next
    fix k assume "0 \<le> k \<and> k \<le> nx - 1"
    then show "arr (wr s nx d) ! nat k = a ! nat k"
      using nth [of k] intact [of k] nx by simp
  next
    fix k assume k: "nx - 1 < k \<and> 0 \<le> k \<and> k < int (length a)"
    show "1 \<le> arr (wr s nx d) ! nat k"
      using nth [of k] k vals [of k] assms(3) by auto
    show "arr (wr s nx d) ! nat k \<le> d"
      using nth [of k] k vals [of k] assms(2) by auto
  next
    fix k k' assume k: "nx - 1 < k \<and> 0 \<le> k \<and> k \<le> k' \<and> k' < int (length a)"
    show "arr (wr s nx d) ! nat k' \<le> arr (wr s nx d) ! nat k"
    proof (cases "k = nx")
      case True
      then show ?thesis
        using nth [of k] nth [of k'] k vals [of k'] assms(2) by auto
    next
      case False
      then show ?thesis
        using nth [of k] nth [of k'] k ord [of k k'] by auto
    qed
  qed
next
  case False
  then have "\<not> in_range s nx"
    by (simp add: in_range_def)
  then have "arr (wr s nx d) = arr s"
    by (simp add: wr_def)
  then show ?thesis
    using assms False unfolding written_def by force
qed

lemma oob_wr: "oob (wr s i v) \<longleftrightarrow> oob s \<or> \<not> in_range s i"
  by (simp add: wr_def)

lemma write_run_written:
  assumes "written a s nx hi" "hi \<le> d" "1 \<le> d"
  shows "\<exists>s'. write_run s nx d i = (s', nx - max 0 i) \<and> written a s' (nx - max 0 i) d \<and>
           (oob s' \<longleftrightarrow> oob s \<or> (0 < i \<and> nx - i < - 1))"
  using assms(1,2)
proof (induction "nat i" arbitrary: i s nx hi)
  case 0
  then have "i \<le> 0"
    by simp
  then show ?case
    using written_hi_mono [OF "0.prems"] by (simp add: write_run.simps [of s nx d i])
next
  case (Suc m)
  then have i: "0 < i" "m = nat (i - 1)"
    by auto
  have w: "written a (wr s nx d) (nx - 1) d"
    using written_wr [OF Suc.prems assms(3)] .
  from Suc.hyps(1) [OF i(2) w order_refl]
  obtain s' where s': "write_run (wr s nx d) (nx - 1) d (i - 1) = (s', nx - 1 - max 0 (i - 1))"
    "written a s' (nx - 1 - max 0 (i - 1)) d"
    "oob s' \<longleftrightarrow> oob (wr s nx d) \<or> (0 < i - 1 \<and> nx - 1 - (i - 1) < - 1)"
    by blast
  have e: "nx - 1 - max 0 (i - 1) = nx - max 0 i"
    using i by simp
  have "in_range s nx \<longleftrightarrow> 0 \<le> nx"
    using Suc.prems(1) by (auto simp: written_def in_range_def)
  then have "oob s' \<longleftrightarrow> oob s \<or> (0 < i \<and> nx - i < - 1)"
    using s'(3) i by (auto simp: oob_wr)
  then show ?case
    using s'(1,2) i e by (simp add: write_run.simps [of s nx d i])
qed

lemma first_bottom:
  assumes "3 \<le> length (arr s)" "int (length (arr s)) < 1073741824"
    "\<And>j. 0 \<le> j \<Longrightarrow> j \<le> int (length (arr s)) - 3 \<Longrightarrow> points_beyond s j (- 1)"
  shows "first s (- 1) 0 = Some (0, s)"
proof -
  have g: "first_gallop s (- 1) 0 (- 1) (int (length (arr s)) - 2)
      = Some (- 1, int (length (arr s)) - 2, s)"
    by (subst first_gallop.simps) simp
  have "(- 1 :: int) \<le> - 1" "- 1 < int (length (arr s)) - 2"
    "int (length (arr s)) - 2 < int (length (arr s))"
    using assms(1) by simp_all
  from first_bisect_spec [OF this assms(2), of "- 1"]
  obtain k where k: "first_bisect s (- 1) (- 1) (int (length (arr s)) - 2) = Some (k, s)"
    "- 1 < k" "k \<le> int (length (arr s)) - 2" "k - 1 = - 1 \<or> \<not> points_beyond s (k - 1) (- 1)"
    by blast
  have "k = 0"
    using k(2,3,4) assms(3) [of "k - 1"] by force
  then show ?thesis
    using g k(1) by (simp add: first_def)
qed

lemma fntr_loop_lv:
  assumes "pp (arr s)" "int (length (arr s)) < 1073741824"
  shows "\<exists>j'. fntr_loop s m (lv (arr s) j) (int j + 1) = Some (lv (arr s) j', s) \<and> j \<le> j' \<and>
           int j' \<le> max (int j) (m - 2) \<and> (lv (arr s) j' \<le> 1 \<or> m - 2 \<le> int j')"
proof (induction "nat (m - 2 - int j)" arbitrary: j rule: less_induct)
  case less
  let ?a = "arr s"
  show ?case
  proof (cases "int j + 1 < m - 1 \<and> 1 < lv ?a j")
    case False
    then have "fntr_loop s m (lv ?a j) (int j + 1) = Some (lv ?a j, s)"
      by (subst fntr_loop.simps) auto
    then show ?thesis
      using False by (intro exI [of _ j]) auto
  next
    case True
    have "first s (lv ?a j - 1) 0 = Some (max 0 (nl ?a (lv ?a j)), s)"
      using True lv_bounds [OF assms(1), of j]
      by (intro first_nl [OF assms(1,2)]) auto
    then have f: "first s (lv ?a j - 1) 0 = Some (lv ?a (Suc j), s)"
      using nl_props(1) [of "lv ?a j" ?a] lv_bounds [OF assms(1), of j] by (simp add: max_def)
    have "nat (m - 2 - int (Suc j)) < nat (m - 2 - int j)"
      using True by auto
    from less.hyps [OF this] obtain j' where
      j': "fntr_loop s m (lv ?a (Suc j)) (int (Suc j) + 1) = Some (lv ?a j', s)" "Suc j \<le> j'"
      "int j' \<le> max (int (Suc j)) (m - 2)" "lv ?a j' \<le> 1 \<or> m - 2 \<le> int j'"
      by blast
    have "fntr_loop s m (lv ?a j) (int j + 1) = Some (lv ?a j', s)"
      using True f j'(1) by (subst fntr_loop.simps) (simp add: add.commute)
    then show ?thesis
      using j' True by (intro exI [of _ j']) auto
  qed
qed

lemma findNodesToRelocate_lv:
  assumes "pp (arr s)" "int (length (arr s)) < 1073741824"
  shows "\<exists>j. findNodesToRelocate s m = Some (lv (arr s) j, s) \<and>
           int j \<le> max 0 (m - 2) \<and> (lv (arr s) j \<le> 1 \<or> m - 2 \<le> int j)"
  using fntr_loop_lv [OF assms, of m 0] by (auto simp: findNodesToRelocate_def)

section \<open>The unlimited assigner\<close>

lemma lv_upper:
  assumes "pp a"
  shows "lv a j \<le> max 0 (int (length a) - 2 - int j)"
proof (induction j)
  case 0
  then show ?case by simp
next
  case (Suc j)
  show ?case
  proof (cases "0 < lv a j")
    case True
    then show ?thesis
      using lv_Suc_less [OF assms True] Suc by simp
  next
    case False
    then have "lv a j = 0"
      using lv_bounds [OF assms, of j] by simp
    then show ?thesis
      by simp
  qed
qed

lemma lv_length_zero:
  assumes "pp a"
  shows "lv a (length a) = 0"
  using lv_upper [OF assms, of "length a"] lv_bounds [OF assms, of "length a"] by simp

lemma pp_nonneg:
  assumes "pp a" "0 \<le> k" "k \<le> int (length a) - 3"
  shows "0 < a ! nat k"
  using pp_raw [OF assms] assms(2) by (auto simp: raw_ok_def)

lemma written_points_beyond:
  assumes "pp a" "written a s nx hi" "0 \<le> j" "j \<le> int (length a) - 3"
  shows "points_beyond s j (- 1)"
proof -
  have len: "length (arr s) = length a"
    using assms(2) by (simp add: written_def)
  have "0 < arr s ! nat j"
  proof (cases "j \<le> nx")
    case True
    then have "arr s ! nat j = a ! nat j"
      using assms(2,3) by (simp add: written_def)
    then show ?thesis
      using pp_nonneg [OF assms(1,3,4)] by simp
  next
    case False
    then have "1 \<le> arr s ! nat j"
      using assms(2,3,4) by (simp add: written_def)
    then show ?thesis
      by simp
  qed
  moreover have "0 < int (length (arr s))"
    using assms(1) len by (auto simp: pp_def)
  ultimately have "0 \<le> js_rem (arr s ! nat j) (int (length (arr s)))"
    by (simp add: js_rem_nonneg)
  then show ?thesis
    using assms(3,4) len by (simp add: points_beyond_iff ptr_def in_range_def)
qed

lemma lv_nat_Suc:
  assumes "1 \<le> d"
  shows "lv a (nat d) = nl a (lv a (nat (d - 1)))"
proof -
  have "nat d = Suc (nat (d - 1))"
    using assms by arith
  then show ?thesis
    by (simp only: lv.simps)
qed

lemma anl_loop_total:
  assumes pp: "pp a" and n: "int (length a) < 1073741824"
    and M: "lv a (nat (M - 1)) = 0" "1 \<le> M"
    and w: "written a s nx (d - 1)" and d: "1 \<le> d" "d \<le> M + 1"
    and F: "F = lv a (nat (d - 1))"
    and A: "A = 2 * ((if d = 1 then int (length a) - 1 else lv a (nat (d - 2))) - F)"
    and nx: "nx + 1 = F + A"
  shows "\<exists>out. anl_loop s F nx d A = Some out \<and> written a out (- 1) M \<and> oob out = oob s"
  using w d F A nx
proof (induction "nat (M + 1 - d)" arbitrary: s F nx d A rule: less_induct)
  case less
  define G where "G = (if d = 1 then int (length a) - 1 else lv a (nat (d - 2)))"
  have A: "A = 2 * (G - F)" and F: "F = lv a (nat (d - 1))" and nx: "nx + 1 = F + A"
    using less.prems by (simp_all add: G_def)
  have len: "length (arr s) = length a"
    using less.prems(1) by (simp add: written_def)
  have n3: "3 \<le> length a"
    using pp by (simp add: pp_def)
  have Fb: "0 \<le> F" "F \<le> int (length a) - 2"
    using lv_bounds [OF pp, of "nat (d - 1)"] F by simp_all
  have GF: "d \<noteq> 1 \<Longrightarrow> F = nl a G"
    using lv_nat_Suc [of "d - 1" a] less.prems(2) F by (simp add: G_def)
  have Gb: "F \<le> G" "G \<le> int (length a) - 1"
    using Fb GF nl_props(2) [of G a] lv_bounds [OF pp, of "nat (d - 2)"]
    by (auto simp: G_def)
  have below: "ptr a j < G" if "0 \<le> j" "j < F" for j
  proof (cases "d = 1")
    case True
    then show ?thesis
      using pp_ptr(2) [OF pp that(1)] that Fb by (simp add: G_def)
  next
    case False
    have "0 \<le> G"
      using Fb Gb by simp
    from nl_props(3) [OF this that(1), of a] show ?thesis
      using GF [OF False] that by simp
  qed
  show ?case
  proof (cases "0 < A")
    case False
    then have "G = F" "d \<noteq> 1"
      using A Gb Fb by (auto simp: G_def)
    have "\<not> 0 < lv a (nat (d - 2))"
    proof
      assume "0 < lv a (nat (d - 2))"
      from lv_Suc_less [OF pp this] have "nl a G < G"
        using \<open>d \<noteq> 1\<close> by (simp add: G_def)
      then show False
        using GF [OF \<open>d \<noteq> 1\<close>] \<open>G = F\<close> by linarith
    qed
    then have "lv a (nat (d - 2)) = 0"
      using lv_bounds [OF pp, of "nat (d - 2)"] by simp
    then have "G = 0"
      using \<open>d \<noteq> 1\<close> by (simp add: G_def)
    then have "nx = - 1"
      using \<open>G = F\<close> A nx by arith
    then have "written a s (- 1) (d - 1)"
      using less.prems(1) by simp
    then have "written a s (- 1) M"
      using written_hi_mono [of a s "- 1" "d - 1" M] less.prems(3) by simp
    moreover have "anl_loop s F nx d A = Some s"
      using False by (subst anl_loop.simps) simp
    ultimately show ?thesis
      by simp
  next
    case True
    then have "F < G"
      using A by simp
    have dM: "d \<le> M"
    proof (rule ccontr)
      assume "\<not> d \<le> M"
      then have "d = M + 1"
        using less.prems(3) by simp
      then have "G = lv a (nat (M - 1))"
        using M(2) by (simp add: G_def)
      then have "G = 0"
        using M(1) by simp
      then show False
        using \<open>F < G\<close> Fb by simp
    qed
    define F' where "F' = nl a F"
    have F': "0 \<le> F'" "F' \<le> F" "F' = lv a (nat d)"
      using nl_props(1,2) [OF Fb(1), of a] lv_nat_Suc [of d a] less.prems(2) F
      by (simp_all add: F'_def)
    have first: "first s (F - 1) 0 = Some (F', s)"
    proof (cases "F = 0")
      case True
      have "first s (- 1) 0 = Some (0, s)"
        using written_points_beyond [OF pp less.prems(1)] len n n3
        by (intro first_bottom) auto
      then show ?thesis
        using True by (simp add: F'_def)
    next
      case False
      have "arr s ! nat j = a ! nat j" if "0 \<le> j" "j < F" for j
        using less.prems(1) that nx True by (simp add: written_def)
      then have "first s (F - 1) 0 = Some (max 0 (nl a F), s)"
        using False Fb len by (intro first_nl [OF pp n]) auto
      then show ?thesis
        using F'(1) by (simp add: F'_def max_def)
    qed
    have count: "F - F' \<le> A"
    proof (cases "F' < F")
      case False
      then show ?thesis
        using True F' by simp
    next
      case lt: True
      have "F \<le> ptr a F'"
        using nl_props(4) [OF Fb(1), of a] lt by (simp add: F'_def)
      then have "2 * F \<le> key (int (length a)) (a ! nat F')"
        using pp_ptr(3) [OF pp F'(1)] lt Fb by (simp split: if_splits)
      from pp_count [OF pp F'(1) _ _ this below [of "F - 1"]] show ?thesis
        using lt Fb F' A by simp
    qed
    let ?c = "A - (F - F')"
    have "hi \<le> d" if "hi = d - 1" for hi
      using that by simp
    from write_run_written [OF less.prems(1) _ less.prems(2), of ?c]
    obtain s' where s': "write_run s nx d ?c = (s', nx - max 0 ?c)"
      "written a s' (nx - max 0 ?c) d" "oob s' \<longleftrightarrow> oob s \<or> (0 < ?c \<and> nx - ?c < - 1)"
      by auto
    have nx': "nx - max 0 ?c = F' + 2 * (F - F') - 1"
      using count nx by simp
    then have o: "oob s' = oob s"
      using s'(3) F' count nx by auto
    have shl: "js_shl (F - F') 1 = 2 * (F - F')"
      using F' Fb n by (intro js_shl_1) auto
    have m: "nat (M + 1 - (d + 1)) < nat (M + 1 - d)"
      using dM by simp
    have "\<exists>out. anl_loop s' F' (F' + 2 * (F - F') - 1) (d + 1) (2 * (F - F')) = Some out \<and>
        written a out (- 1) M \<and> oob out = oob s'"
    proof (rule less.hyps [OF m])
      show "written a s' (F' + 2 * (F - F') - 1) (d + 1 - 1)"
        using s'(2) nx' by simp
      show "1 \<le> d + 1" "d + 1 \<le> M + 1"
        using less.prems(2) dM by simp_all
      show "F' = lv a (nat (d + 1 - 1))"
        using F'(3) by simp
      show "2 * (F - F') =
          2 * ((if d + 1 = 1 then int (length a) - 1 else lv a (nat (d + 1 - 2))) - F')"
        using less.prems(2) F by simp
      show "F' + 2 * (F - F') - 1 + 1 = F' + 2 * (F - F')"
        by simp
    qed
    then obtain out where out: "anl_loop s' F' (F' + 2 * (F - F') - 1) (d + 1) (2 * (F - F')) = Some out"
      "written a out (- 1) M" "oob out = oob s'"
      by blast
    have "anl_loop s F nx d A = Some out"
      using True first s'(1) nx' shl out(1) by (subst anl_loop.simps) (simp add: Let_def)
    then show ?thesis
      using out o by simp
  qed
qed

lemma allocateNodeLengths_total:
  assumes pp: "pp (arr s)" and n: "int (length (arr s)) < 1073741824"
    and M: "lv (arr s) (nat (M - 1)) = 0" "1 \<le> M"
  shows "\<exists>out. allocateNodeLengths s = Some out \<and> written (arr s) out (- 1) M \<and>
           oob out = oob s"
proof -
  have "written (arr s) s (int (length (arr s)) - 1) (1 - 1)"
    by (simp add: written_def)
  from anl_loop_total [OF pp n M this, of "int (length (arr s)) - 2" 2]
  show ?thesis
    using M(2) by (simp add: allocateNodeLengths_def)
qed

section \<open>The limited assigner\<close>

lemma js_shl_one:
  assumes "0 \<le> e" "e \<le> 30"
  shows "js_shl 1 e = 2 ^ nat e"
proof -
  have "(2 :: int) ^ nat e \<le> 2 ^ 30"
    using assms by (intro power_increasing) auto
  then have lt: "(2 :: int) ^ nat e < 2147483648"
    by simp
  have "(0 :: int) \<le> 2 ^ nat e"
    by simp
  then have ge: "- 2147483648 \<le> (2 :: int) ^ nat e"
    by linarith
  have "e mod 32 = e"
    using assms by simp
  then show ?thesis
    using to_int32_id [OF ge lt] by (simp add: js_shl_def to_int32_id)
qed

lemma pow2_step:
  assumes "D \<le> d"
  shows "(2 :: int) ^ nat (d + 1 - D) = 2 * 2 ^ nat (d - D)"
proof -
  have "nat (d + 1 - D) = Suc (nat (d - D))"
    using assms by arith
  then show ?thesis
    by (simp only: power_Suc)
qed

lemma written_below:
  assumes "written a s nx hi" "nx \<le> - 1"
  shows "written a s (- 1) hi"
  using assms unfolding written_def by force

lemma lv_le_imp:
  assumes "pp a" "lv a i < lv a j"
  shows "j < i"
  using lv_antimono [OF assms(1), of i j] assms(2) by (cases "j < i") auto

text \<open>
  The loop of \<^verbatim>\<open>allocateNodeLengthsWithRelocation\<close> from the insert depth on. \<open>F\<close>, \<open>nx\<close>,
  \<open>d\<close>, \<open>left\<close> and \<open>A\<close> are \<open>firstNode\<close>, \<open>nextNode\<close>, \<open>currentDepth\<close>,
  \<open>nodesLeftToMove\<close> and \<open>availableNodes\<close> at the head of the loop; \<open>G\<close> and \<open>po\<close> are the
  \<open>lastNode\<close> and the offset of the round before, and \<open>left\<close> has a closed form. \<open>kappa\<close> and
  \<open>E\<close> are 0 when the insert depth is at least 1; \<open>E\<close> is the number of lengths for which the
  buffer has no slot left.
\<close>

lemma anlr_loop_relocating:
  fixes a :: "int list" and r D m kappa E :: int
  assumes pp: "pp a" and n: "int (length a) < 1073741824"
    and r0: "0 \<le> r" and rl: "r = lv a (nat (m - 2))" and m2: "2 \<le> m"
    and D: "D < m" "m - D \<le> 30"
    and cap: "r + kappa \<le> 2 ^ nat (m - D)"
    and full: "2 ^ nat (m - D - 1) < r"
    and E: "0 \<le> E" "E \<le> kappa" "kappa \<le> 2"
    and R1: "r \<le> F" "F \<le> G" "G \<le> int (length a) - 1" "F \<le> int (length a) - 2"
    and R2: "\<forall>k. r \<le> k \<and> k < F - eps \<longrightarrow> ptr a k < G"
    and R3: "A = 2 * (G - F) + 2 * po" "0 \<le> po"
    and R4: "eps = 0 \<or> eps = 1"
    and R5: "left = max 0 (r + kappa - 2 ^ nat (d - D))" "D \<le> d"
    and R6: "(left = 0 \<and> eps = 0) \<or> 2 ^ nat (d - D) + eps \<le> 2 * po"
    and R7: "nx + 1 = A + (F - r) + left - E"
    and R8: "F \<le> max r (lv a (nat (d - 2)))" "2 \<le> d"
    and R9: "written a s nx (d - 1)"
    and R10: "d \<le> m + 1" "d = m + 1 \<longrightarrow> A = 0"
  shows "\<exists>out. anlr_loop s r D F nx d left A = Some out \<and> written a out (- 1) m \<and>
           (E = 0 \<longrightarrow> oob out = oob s)"
  using R1 R2 R3 R4 R5 R6 R7 R8 R9 R10
proof (induction "nat (m + 1 - d)" arbitrary: s F nx d left A G po eps rule: less_induct)
  case less
  note R1 = less.prems(1-4) and R2 = less.prems(5) and R3 = less.prems(6,7)
    and R4 = less.prems(8) and R5 = less.prems(9,10) and R6 = less.prems(11)
    and R7 = less.prems(12) and R8 = less.prems(13,14) and R9 = less.prems(15)
    and R10 = less.prems(16,17)
  define w :: int where "w = 2 ^ nat (d - D)"
  have w1: "1 \<le> w"
    by (simp add: w_def)
  have left: "left = max 0 (r + kappa - w)"
    using R5(1) by (simp add: w_def)
  have R6': "(left = 0 \<and> eps = 0) \<or> w + eps \<le> 2 * po"
    using R6 by (simp add: w_def)
  have len: "length (arr s) = length a"
    using R9 by (simp add: written_def)
  have k0: "0 \<le> kappa"
    using E by arith
  show ?case
  proof (cases "0 < A")
    case False
    then have "G = F" "po = 0"
      using R3 R1(2) by arith+
    then have l0: "left = 0" "eps = 0"
      using R6' R4 w1 by arith+
    have "F = r"
    proof (rule ccontr)
      assume "F \<noteq> r"
      then have lt: "r < F"
        using R1(1) by simp
      then have "ptr a (F - 1) < G"
        using R2 l0 by simp
      moreover have "F - 1 < ptr a (F - 1)"
        using pp_ptr(1) [OF pp, of "F - 1"] lt r0 R1(4) by simp
      ultimately show False
        using \<open>G = F\<close> by arith
    qed
    then have "nx \<le> - 1"
      using R7 R3(1) \<open>G = F\<close> \<open>po = 0\<close> l0 E(1) by arith
    then have "written a s (- 1) (d - 1)"
      using written_below [OF R9] by simp
    then have "written a s (- 1) m"
      using written_hi_mono [of a s "- 1" "d - 1" m] R10(1) by simp
    moreover have "anlr_loop s r D F nx d left A = Some s"
      using False by (subst anlr_loop.simps) simp
    ultimately show ?thesis
      by simp
  next
    case True
    then have dm: "d \<le> m"
      using R10 by arith
    have shl1: "js_shl 1 (d - D) = w"
      using js_shl_one [of "d - D"] R5(2) dm D(2) by (simp add: w_def)
    have "\<exists>F'. (if F \<le> r then Some (F, s) else first s (F - 1) r) = Some (F', s) \<and>
        r \<le> F' \<and> F' \<le> F \<and> (\<forall>k. r \<le> k \<and> k < F' \<longrightarrow> ptr a k < F) \<and>
        (F' < F \<longrightarrow> F \<le> ptr a F') \<and> F' \<le> max r (nl a F) \<and> (F \<le> r \<longrightarrow> F' = F)"
    proof (cases "F \<le> r")
      case True
      then have "F = r"
        using R1(1) by simp
      then show ?thesis
        by (intro exI [of _ F]) auto
    next
      case False
      then have lt: "r < F"
        by simp
      then have "F \<le> lv a (nat (d - 2))"
        using R8(1) by arith
      then have "lv a (nat (m - 2)) < lv a (nat (d - 2))"
        using lt rl by simp
      then have "nat (d - 2) < nat (m - 2)"
        by (rule lv_le_imp [OF pp])
      then have dlt: "d < m"
        by arith
      have "(2 :: int) ^ nat (d - D) \<le> 2 ^ nat (m - D - 1)"
        using dlt R5(2) by (intro power_increasing) auto
      then have wr: "w < r"
        unfolding w_def using full by linarith
      then have lpos: "left = r + kappa - w"
        using left k0 by arith
      then have "w + eps \<le> 2 * po"
        using R6' wr k0 by arith
      then have room: "F \<le> nx + 1"
        using R7 R3(1) R1(2) lpos E(2) R4 by arith
      have agree: "arr s ! nat j = a ! nat j" if "0 \<le> j" "j < F" for j
        using R9 that room by (simp add: written_def)
      have f: "first s (F - 1) r = Some (max r (nl a F), s)"
        using first_nl [OF pp n len agree r0 lt R1(4)] by simp
      have F0: "0 \<le> F"
        using lt r0 by simp
      have nlF: "nl a F < F"
        using nl_less [OF pp, of F] lt r0 R1(4) by simp
      have b: "\<forall>k. r \<le> k \<and> k < max r (nl a F) \<longrightarrow> ptr a k < F"
      proof (intro allI impI)
        fix k assume k: "r \<le> k \<and> k < max r (nl a F)"
        then have "k < nl a F"
          by arith
        then show "ptr a k < F"
          using nl_props(3) [OF F0, of k a] k r0 by simp
      qed
      have c: "F \<le> ptr a (max r (nl a F))"
      proof (cases "r \<le> nl a F")
        case True
        then show ?thesis
          using nl_props(4) [OF F0, of a] nlF by (simp add: max_def)
      next
        case False
        have "F \<le> ptr a (nl a F)"
          using nl_props(4) [OF F0, of a] nlF by simp
        moreover have "ptr a (nl a F) \<le> ptr a r"
          using pp_ptr_mono [OF pp, of "nl a F" r] nl_props(1) [OF F0, of a] False lt R1(4)
          by simp
        ultimately show ?thesis
          using False by (simp add: max_def)
      qed
      show ?thesis
        using f b c nlF lt False by (intro exI [of _ "max r (nl a F)"]) auto
    qed
    then obtain F' where F': "(if F \<le> r then Some (F, s) else first s (F - 1) r) = Some (F', s)"
      "r \<le> F'" "F' \<le> F" "\<forall>k. r \<le> k \<and> k < F' \<longrightarrow> ptr a k < F"
      "F' < F \<longrightarrow> F \<le> ptr a F'" "F' \<le> max r (nl a F)" "F \<le> r \<longrightarrow> F' = F"
      by blast
    define off where "off = min left w"
    have ao: "anlr_offset s D d left F F' = (off, F', s)"
      using R5(2) shl1 by (simp add: anlr_offset_def off_def)
    have l0: "0 \<le> left"
      using left by arith
    have off0: "0 \<le> off" "off \<le> left" "off \<le> w"
      using l0 w1 by (simp_all add: off_def)
    have offb: "off + eps \<le> 2 * po"
      using R6' off0 R3(2) by arith
    have natb: "F - F' \<le> 2 * (G - F) + eps"
    proof (cases "F' \<le> F - 1 - eps")
      case False
      then show ?thesis
        using R1(2) R4 F'(3) by arith
    next
      case True
      then have "F \<le> ptr a F'"
        using F'(5) R4 by arith
      moreover have F'b: "0 \<le> F'" "F' \<le> int (length a) - 3"
        using F'(2) r0 True R1(4) R4 by arith+
      ultimately have lo: "2 * F \<le> key (int (length a)) (a ! nat F')"
        using pp_ptr(3) [OF pp F'b] by (simp split: if_splits)
      have hi: "ptr a (F - 1 - eps) < G"
        using R2 True F'(2) by simp
      have "F - 1 - eps \<le> int (length a) - 3"
        using R1(4) R4 by arith
      from pp_count [OF pp F'b(1) True this lo hi] show ?thesis
        by arith
    qed
    let ?x = "F - F' + off"
    have cnt: "0 \<le> A - ?x"
      using natb offb R3(1) by arith
    have "d - 1 \<le> d" "1 \<le> d"
      using R8(2) by simp_all
    from write_run_written [OF R9 this, of "A - ?x"] cnt
    obtain s' where s': "write_run s nx d (A - ?x) = (s', nx - (A - ?x))"
      "written a s' (nx - (A - ?x)) d"
      "oob s' \<longleftrightarrow> oob s \<or> (0 < A - ?x \<and> nx - (A - ?x) < - 1)"
      by (auto simp: max_def)
    have nx': "nx - (A - ?x) + 1 = 2 * ?x + (F' - r) + (left - off) - E"
      using R7 by arith
    have o: "E = 0 \<longrightarrow> oob s' = oob s"
      using s'(3) nx' F'(2,3) off0 by auto
    have "left \<le> r + 1"
      using left w1 E(3) r0 by arith
    then have "?x < 1073741824" "0 \<le> ?x"
      using off0 F'(2,3) R1(4) n by arith+
    then have shl: "js_shl ?x 1 = 2 * ?x"
      by (intro js_shl_1) auto
    have m: "nat (m + 1 - (d + 1)) < nat (m + 1 - d)"
      using dm by simp
    have w2: "(2 :: int) ^ nat (d + 1 - D) = 2 * w"
      using pow2_step [OF R5(2)] by (simp add: w_def)
    have "\<exists>out. anlr_loop s' r D F' (nx - (A - ?x)) (d + 1) (left - off) (2 * ?x) = Some out \<and>
        written a out (- 1) m \<and> (E = 0 \<longrightarrow> oob out = oob s')"
    proof (rule less.hyps [OF m, where G = F and po = off and eps = 0])
      show "r \<le> F'" "F' \<le> F" "F \<le> int (length a) - 1" "F' \<le> int (length a) - 2"
        using F'(2,3) R1(4) by simp_all
      show "\<forall>k. r \<le> k \<and> k < F' - 0 \<longrightarrow> ptr a k < F"
        using F'(4) by simp
      show "2 * ?x = 2 * (F - F') + 2 * off" "0 \<le> off"
        using off0 by simp_all
      show "(0 :: int) = 0 \<or> (0 :: int) = 1"
        by simp
      show "left - off = max 0 (r + kappa - 2 ^ nat (d + 1 - D))"
        unfolding w2 off_def using left w1 by arith
      show "D \<le> d + 1"
        using R5(2) by simp
      show "left - off = 0 \<and> (0 :: int) = 0 \<or> 2 ^ nat (d + 1 - D) + 0 \<le> 2 * off"
        unfolding w2 off_def by arith
      show "nx - (A - ?x) + 1 = 2 * ?x + (F' - r) + (left - off) - E"
        using nx' .
      show "F' \<le> max r (lv a (nat (d + 1 - 2)))"
      proof (cases "F \<le> r")
        case True
        then show ?thesis
          using F'(3) by arith
      next
        case False
        then have "F \<le> lv a (nat (d - 2))"
          using R8(1) by arith
        then have "nl a F \<le> nl a (lv a (nat (d - 2)))"
          using nl_mono [of F "lv a (nat (d - 2))" a] False r0 by simp
        also have "\<dots> = lv a (nat (d - 1))"
          using lv_nat_Suc [of "d - 1" a] R8(2) by simp
        finally show ?thesis
          using F'(6) by simp
      qed
      show "2 \<le> d + 1"
        using R8(2) by simp
      show "written a s' (nx - (A - ?x)) (d + 1 - 1)"
        using s'(2) by simp
      show "d + 1 \<le> m + 1"
        using dm by simp
      show "d + 1 = m + 1 \<longrightarrow> 2 * ?x = 0"
      proof
        assume "d + 1 = m + 1"
        then have dm': "d = m"
          by simp
        then have "F \<le> r"
          using R8(1) rl by simp
        then have "F' = F"
          using F'(7) by simp
        moreover have "left = 0"
          using left cap dm' by (simp add: w_def)
        ultimately show "2 * ?x = 0"
          using off0 by simp
      qed
    qed
    then obtain out where out:
      "anlr_loop s' r D F' (nx - (A - ?x)) (d + 1) (left - off) (2 * ?x) = Some out"
      "written a out (- 1) m" "E = 0 \<longrightarrow> oob out = oob s'"
      by blast
    have "anlr_loop s r D F nx d left A = Some out"
      using True F'(1) ao s'(1) shl out(1)
      by (subst anlr_loop.simps) (simp add: Let_def del: if_split)
    then show ?thesis
      using out o by simp
  qed
qed

lemma fls_bounds:
  assumes "1 \<le> x"
  shows "1 \<le> fls x \<and> 2 ^ nat (fls x - 1) \<le> x \<and> x < 2 ^ nat (fls x)"
  using assms
proof (induction x rule: fls.induct)
  case (1 x)
  show ?case
  proof (cases "x = 1")
    case True
    have "fls 0 = 0"
      by (simp add: fls.simps)
    then have "fls 1 = 1"
      by (simp add: fls.simps [of 1])
    then show ?thesis
      using True by simp
  next
    case False
    then have x2: "2 \<le> x" "1 \<le> x div 2" "\<not> x \<le> 0"
      using "1.prems" by auto
    define f where "f = fls (x div 2)"
    from "1.IH" [OF x2(3) x2(2)]
    have f: "1 \<le> f" "2 ^ nat (f - 1) \<le> x div 2" "x div 2 < 2 ^ nat f"
      by (simp_all add: f_def)
    have fx: "fls x = f + 1"
      using x2 by (simp add: fls.simps [of x] f_def)
    have p: "(2 :: int) ^ nat f = 2 * 2 ^ nat (f - 1)" "(2 :: int) ^ nat (f + 1) = 2 * 2 ^ nat f"
      using pow2_step [of 0 "f - 1"] pow2_step [of 0 f] f(1) by simp_all
    have "2 * (x div 2) \<le> x" "x \<le> 2 * (x div 2) + 1"
      by arith+
    then have "2 ^ nat f \<le> x" "x < 2 ^ nat (f + 1)"
      using f(2,3) p by arith+
    then show ?thesis
      using fx f(1) by simp
  qed
qed

lemma lv_strict:
  assumes "pp a" "i < j" "0 < lv a j"
  shows "lv a j < lv a i"
  using assms(2,3)
proof (induction j)
  case 0
  then show ?case by simp
next
  case (Suc j)
  have pos: "0 < lv a j"
    using Suc.prems(2) lv_Suc_le [OF assms(1), of j] by arith
  then have lt: "lv a (Suc j) < lv a j"
    by (rule lv_Suc_less [OF assms(1)])
  show ?case
  proof (cases "i = j")
    case True
    then show ?thesis
      using lt by simp
  next
    case False
    then have "lv a j < lv a i"
      using Suc.IH Suc.prems(1) pos by simp
    then show ?thesis
      using lt by arith
  qed
qed

lemma ceil_log2_le:
  "ceil_log2 n \<le> k \<Longrightarrow> n \<le> 2 ^ k"
proof (induction n arbitrary: k rule: ceil_log2.induct)
  case (1 n)
  show ?case
  proof (cases "n \<le> 1")
    case True
    then show ?thesis
      by (metis le_trans one_le_numeral one_le_power)
  next
    case False
    then have c: "ceil_log2 n = Suc (ceil_log2 ((n + 1) div 2))"
      by (simp add: ceil_log2.simps [of n])
    then obtain k' where k: "k = Suc k'" "ceil_log2 ((n + 1) div 2) \<le> k'"
      using "1.prems" by (cases k) auto
    from "1.IH" [OF False k(2)] have "(n + 1) div 2 \<le> 2 ^ k'"
      .
    then show ?thesis
      using k(1) by simp
  qed
qed

text \<open>The rounds of the same loop before the insert depth.\<close>

lemma anlr_loop_natural:
  fixes a :: "int list" and r D m :: int
  assumes pp: "pp a" and n: "int (length a) < 1073741824"
    and r2: "2 \<le> r" and rl: "r = lv a (nat (m - 2))"
    and D2: "2 \<le> D" and D: "D < m" "m - D \<le> 30"
    and cap: "r \<le> 2 ^ nat (m - D)" and full: "2 ^ nat (m - D - 1) < r"
    and d: "1 \<le> d" "d \<le> D - 1"
    and F: "F = lv a (nat (d - 1))"
    and A: "A = 2 * ((if d = 1 then int (length a) - 1 else lv a (nat (d - 2))) - F)"
    and nx: "nx + 1 = F + A"
    and w: "written a s nx (d - 1)"
  shows "\<exists>out. anlr_loop s r D F nx d r A = Some out \<and> written a out (- 1) m \<and>
           oob out = oob s"
  using d F A nx w
proof (induction "nat (D - d)" arbitrary: s F nx d A rule: less_induct)
  case less
  note d = less.prems(1,2) and F = less.prems(3) and nx = less.prems(5) and w = less.prems(6)
  define G where "G = (if d = 1 then int (length a) - 1 else lv a (nat (d - 2)))"
  have A: "A = 2 * (G - F)"
    using less.prems(4) by (simp add: G_def)
  have len: "length (arr s) = length a"
    using w by (simp add: written_def)
  have m2: "2 \<le> m"
    using D2 D(1) by arith
  have idx: "nat (d - 1) < nat (m - 2)" "nat d \<le> nat (m - 2)"
    using d D(1) by arith+
  have rpos: "0 < lv a (nat (m - 2))"
    using r2 rl by arith
  have rF: "r < F"
    using lv_strict [OF pp idx(1) rpos] F rl by simp
  have Fb: "0 \<le> F" "F \<le> int (length a) - 2" "1 \<le> F"
    using lv_bounds [OF pp, of "nat (d - 1)"] F rF r2 by arith+
  have GF: "d \<noteq> 1 \<Longrightarrow> F = nl a G"
    using lv_nat_Suc [of "d - 1" a] d(1) F by (simp add: G_def)
  have FG: "F < G"
  proof (cases "d = 1")
    case True
    then show ?thesis
      using F by (simp add: G_def)
  next
    case False
    then have "nat (d - 2) < nat (d - 1)"
      using d(1) by arith
    from lv_strict [OF pp this] show ?thesis
      using F Fb(3) False by (simp add: G_def)
  qed
  have Gb: "G \<le> int (length a) - 1"
    using lv_bounds [OF pp, of "nat (d - 2)"] by (simp add: G_def)
  have below: "ptr a j < G" if "0 \<le> j" "j < F" for j
  proof (cases "d = 1")
    case True
    then show ?thesis
      using pp_ptr(2) [OF pp that(1)] that Fb by (simp add: G_def)
  next
    case False
    have "0 \<le> G"
      using Fb FG by arith
    from nl_props(3) [OF this that(1), of a] show ?thesis
      using GF [OF False] that by simp
  qed
  have Apos: "0 < A"
    using A FG by arith
  define F' where "F' = nl a F"
  have F'lv: "F' = lv a (nat d)"
    using lv_nat_Suc [of d a] d(1) F by (simp add: F'_def)
  have F'r: "r \<le> F'"
    using lv_antimono [OF pp idx(2)] F'lv rl by simp
  have F'F: "F' < F"
    using nl_less [OF pp Fb(3) Fb(2)] by (simp add: F'_def)
  have F'0: "0 \<le> F'" "F' \<le> int (length a) - 3"
    using F'r r2 F'F Fb(2) by arith+
  have room: "F \<le> nx + 1"
    using nx Apos by arith
  have agree: "arr s ! nat j = a ! nat j" if "0 \<le> j" "j < F" for j
    using w that room by (simp add: written_def)
  have "first s (F - 1) r = Some (max r (nl a F), s)"
    using first_nl [OF pp n len agree _ rF Fb(2)] r2 by simp
  then have first: "(if F \<le> r then Some (F, s) else first s (F - 1) r) = Some (F', s)"
    using rF F'r by (simp add: F'_def max_def)
  have ptrF': "F \<le> ptr a F'"
    using nl_props(4) [OF Fb(1), of a] F'F by (simp add: F'_def)
  have keyF': "2 * ptr a F' \<le> key (int (length a)) (a ! nat F')"
    using pp_ptr(3) [OF pp F'0] by (simp split: if_splits)
  have lo: "2 * F \<le> key (int (length a)) (a ! nat F')"
    using keyF' ptrF' by arith
  have Fm1: "F - 1 \<le> int (length a) - 3" "F' \<le> F - 1"
    using Fb(2) F'F by arith+
  have hi: "ptr a (F - 1) < G"
    using below [of "F - 1"] Fb(3) by simp
  have natb: "F - F' \<le> A"
    using pp_count [OF pp F'0(1) Fm1(2) Fm1(1) lo hi] A by arith
  have d1: "d - 1 \<le> d"
    by simp
  show ?case
  proof (cases "d = D - 1")
    case False
    then have dlt: "d < D - 1"
      using d(2) by arith
    have ao: "anlr_offset s D d r F F' = (0, F', s)"
      using dlt by (simp add: anlr_offset_def)
    let ?c = "A - (F - F')"
    from write_run_written [OF w d1 d(1), of ?c] natb
    obtain s' where s': "write_run s nx d ?c = (s', nx - ?c)" "written a s' (nx - ?c) d"
      "oob s' \<longleftrightarrow> oob s \<or> (0 < ?c \<and> nx - ?c < - 1)"
      by (auto simp: max_def)
    have nx': "nx - ?c + 1 = F' + 2 * (F - F')"
      using nx by arith
    have o: "oob s' = oob s"
      using s'(3) nx' F'0(1) F'F by auto
    have shl: "js_shl (F - F') 1 = 2 * (F - F')"
      using F'0(1) F'F Fb(2) n by (intro js_shl_1) auto
    have m: "nat (D - (d + 1)) < nat (D - d)"
      using dlt by arith
    have "\<exists>out. anlr_loop s' r D F' (nx - ?c) (d + 1) r (2 * (F - F')) = Some out \<and>
        written a out (- 1) m \<and> oob out = oob s'"
    proof (rule less.hyps [OF m])
      show "1 \<le> d + 1" "d + 1 \<le> D - 1"
        using d(1) dlt by arith+
      show "F' = lv a (nat (d + 1 - 1))"
        using F'lv by simp
      show "2 * (F - F') =
          2 * ((if d + 1 = 1 then int (length a) - 1 else lv a (nat (d + 1 - 2))) - F')"
        using d(1) F by simp
      show "nx - ?c + 1 = F' + 2 * (F - F')"
        using nx' .
      show "written a s' (nx - ?c) (d + 1 - 1)"
        using s'(2) by simp
    qed
    then obtain out where out: "anlr_loop s' r D F' (nx - ?c) (d + 1) r (2 * (F - F')) = Some out"
      "written a out (- 1) m" "oob out = oob s'"
      by blast
    have "anlr_loop s r D F nx d r A = Some out"
      using Apos first ao s'(1) shl out(1)
      by (subst anlr_loop.simps) (simp add: Let_def del: if_split)
    then show ?thesis
      using out o by simp
  next
    case True
    have rF': "in_range s F'"
      using F'0 len by (simp add: in_range_def)
    have rdF': "rd s F' = Some (a ! nat F')"
      using rF' agree [OF F'0(1) F'F] by (simp add: rd_def)
    define adj where "adj \<longleftrightarrow> a ! nat F' = F"
    define Fh where "Fh = (if adj then F' + 1 else F')"
    define eps :: int where "eps = (if adj then 1 else 0)"
    have ao: "anlr_offset s D d r F F' = (1, Fh, s)"
      using True rF' rdF' by (simp add: anlr_offset_def Fh_def adj_def)
    have Fh: "Fh = F' + eps" "eps = 0 \<or> eps = 1" "r \<le> Fh" "Fh \<le> F"
      using F'r F'F by (auto simp: Fh_def eps_def)
    have cntb: "F - Fh + 1 \<le> A"
    proof (cases adj)
      case True
      then show ?thesis
        using natb by (simp add: Fh_def)
    next
      case False
      then have ne: "a ! nat F' \<noteq> F"
        by (simp add: adj_def)
      have "2 * F + 1 \<le> key (int (length a)) (a ! nat F')"
      proof (cases "ptr a F' = F")
        case False
        then show ?thesis
          using keyF' ptrF' by arith
      next
        case True
        then have "\<not> a ! nat F' < int (length a)"
          using pp_ptr(4) [OF pp F'0] ne by auto
        then show ?thesis
          using pp_ptr(3) [OF pp F'0] True by simp
      qed
      from pp_count [OF pp F'0(1) Fm1(2) Fm1(1) this hi] show ?thesis
        using A False by (simp add: Fh_def)
    qed
    let ?x = "F - Fh + 1"
    let ?c = "A - ?x"
    from write_run_written [OF w d1 d(1), of ?c] cntb
    obtain s' where s': "write_run s nx d ?c = (s', nx - ?c)" "written a s' (nx - ?c) d"
      "oob s' \<longleftrightarrow> oob s \<or> (0 < ?c \<and> nx - ?c < - 1)"
      by (auto simp: max_def)
    have nx': "nx - ?c + 1 = 2 * ?x + (Fh - r) + (r - 1) - 0"
      using nx by arith
    have o: "oob s' = oob s"
      using s'(3) nx' Fh(3,4) r2 by auto
    have "?x < 1073741824" "0 \<le> ?x"
      using Fh(3,4) Fb(2) r2 n by arith+
    then have shl: "js_shl ?x 1 = 2 * ?x"
      by (intro js_shl_1) auto
    have dD: "d + 1 = D"
      using True by simp
    have "\<exists>out. anlr_loop s' r D Fh (nx - ?c) D (r - 1) (2 * ?x) = Some out \<and>
        written a out (- 1) m \<and> ((0 :: int) = 0 \<longrightarrow> oob out = oob s')"
    proof (rule anlr_loop_relocating
        [OF pp n _ rl m2 D, where kappa = 0 and E = 0 and G = F and po = 1 and eps = eps])
      show "0 \<le> r"
        using r2 by simp
      show "r + 0 \<le> 2 ^ nat (m - D)"
        using cap by simp
      show "2 ^ nat (m - D - 1) < r"
        using full .
      show "(0 :: int) \<le> 0" "(0 :: int) \<le> 0" "(0 :: int) \<le> 2"
        by simp_all
      show "r \<le> Fh" "Fh \<le> F" "F \<le> int (length a) - 1" "Fh \<le> int (length a) - 2"
        using Fh(3,4) Fb(2) by arith+
      show "\<forall>k. r \<le> k \<and> k < Fh - eps \<longrightarrow> ptr a k < F"
        using nl_props(3) [OF Fb(1), of _ a] r2 Fh(1) by (auto simp: F'_def)
      show "2 * ?x = 2 * (F - Fh) + 2 * 1" "(0 :: int) \<le> 1"
        by simp_all
      show "eps = 0 \<or> eps = 1"
        using Fh(2) .
      show "r - 1 = max 0 (r + 0 - 2 ^ nat (D - D))" "D \<le> D"
        using r2 by simp_all
      show "r - 1 = 0 \<and> eps = 0 \<or> 2 ^ nat (D - D) + eps \<le> 2 * 1"
        using Fh(2) by auto
      show "nx - ?c + 1 = 2 * ?x + (Fh - r) + (r - 1) - 0"
        using nx' .
      show "Fh \<le> max r (lv a (nat (D - 2)))"
        using Fh(4) F True by simp
      show "2 \<le> D"
        using D2 .
      show "written a s' (nx - ?c) (D - 1)"
        using s'(2) True by simp
      show "D \<le> m + 1" "D = m + 1 \<longrightarrow> 2 * ?x = 0"
        using D(1) by simp_all
    qed
    then obtain out where out: "anlr_loop s' r D Fh (nx - ?c) D (r - 1) (2 * ?x) = Some out"
      "written a out (- 1) m" "oob out = oob s'"
      by auto
    have "anlr_loop s r D F nx d r A = Some out"
      using Apos first ao s'(1) shl out(1) dD
      by (subst anlr_loop.simps) (simp add: Let_def del: if_split)
    then show ?thesis
      using out o by simp
  qed
qed

text \<open>The limited assigner as it is entered, for an insert depth of 2 or more, 1 and 0.\<close>

lemma written_start: "written (arr s) s (int (length (arr s)) - 1) hi"
  by (simp add: written_def)

lemma write_run_nonpos: "i \<le> 0 \<Longrightarrow> write_run s nx d i = (s, nx)"
  by (subst write_run.simps) simp

lemma allocateNodeLengthsWithRelocation_total:
  fixes r D m :: int
  assumes pp: "pp (arr s)" and n: "int (length (arr s)) < 1073741824"
    and r2: "2 \<le> r" and rl: "r = lv (arr s) (nat (m - 2))" and m2: "2 \<le> m"
    and Dd: "D = m - fls (r - 1)"
    and Dc: "1 \<le> D \<or> (D = 0 \<and> int (length (arr s)) \<le> 2 ^ nat m)"
  shows "\<exists>out. allocateNodeLengthsWithRelocation s r D = Some out \<and>
           written (arr s) out (- 1) m \<and> (1 \<le> D \<longrightarrow> oob out = oob s)"
proof -
  let ?a = "arr s"
  let ?n = "int (length ?a)"
  define b where "b = fls (r - 1)"
  have b: "1 \<le> b" "2 ^ nat (b - 1) \<le> r - 1" "r - 1 < 2 ^ nat b"
    using fls_bounds [of "r - 1"] r2 by (simp_all add: b_def)
  have mD: "m - D = b" "D < m"
    using Dd b(1) by (simp_all add: b_def)
  have rn: "r \<le> ?n - 2"
    using lv_bounds [OF pp, of "nat (m - 2)"] rl by simp
  have "(2 :: int) ^ nat (b - 1) < 1073741824"
    using b(2) rn n by arith
  then have "(2 :: int) ^ nat (b - 1) < 2 ^ 30"
    by simp
  then have "nat (b - 1) < 30"
    by (simp only: power_strict_increasing_iff [of "2 :: int"] one_less_numeral_iff
        semiring_norm)
  then have b30: "m - D \<le> 30"
    using mD(1) by arith
  have full: "2 ^ nat (m - D - 1) < r"
    using b(2) mD(1) by simp
  have cap0: "r \<le> 2 ^ nat (m - D)"
    using b(3) mD(1) by simp
  have n3: "3 \<le> length ?a"
    using pp by (simp add: pp_def)
  have l0: "lv ?a 0 = ?n - 2"
    by simp
  consider (nat) "2 \<le> D" | (one) "D = 1" | (zero) "D = 0" "?n \<le> 2 ^ nat m"
    using Dc by arith
  then show ?thesis
  proof cases
    case nat
    have e: "allocateNodeLengthsWithRelocation s r D =
        anlr_loop s r D (?n - 2) (?n - 1) 1 r 2"
      using nat by (simp add: allocateNodeLengthsWithRelocation_def js_shl_def to_int32_def)
    have "\<exists>out. anlr_loop s r D (?n - 2) (?n - 1) 1 r 2 = Some out \<and>
        written ?a out (- 1) m \<and> oob out = oob s"
    proof (rule anlr_loop_natural [OF pp n r2 rl nat mD(2) b30 cap0 full])
      show "(1 :: int) \<le> 1" "1 \<le> D - 1"
        using nat by simp_all
      show "?n - 2 = lv ?a (nat (1 - 1))"
        by simp
      show "2 = 2 * ((if (1 :: int) = 1 then ?n - 1 else lv ?a (nat (1 - 2))) - (?n - 2))"
        by simp
      show "?n - 1 + 1 = ?n - 2 + 2"
        by simp
      show "written ?a s (?n - 1) (1 - 1)"
        by (rule written_start)
    qed
    then show ?thesis
      using e by auto
  next
    case one
    have e: "allocateNodeLengthsWithRelocation s r D =
        anlr_loop s r D (?n - 2) (?n - 1) 2 (r - 2) 4"
      using one by (simp add: allocateNodeLengthsWithRelocation_def js_shl_def to_int32_def)
    have "\<exists>out. anlr_loop s r D (?n - 2) (?n - 1) 2 (r - 2) 4 = Some out \<and>
        written ?a out (- 1) m \<and> ((0 :: int) = 0 \<longrightarrow> oob out = oob s)"
    proof (rule anlr_loop_relocating [OF pp n _ rl m2 mD(2) b30, where kappa = 0 and E = 0
          and G = "?n - 1" and po = 1 and eps = 0])
      show "0 \<le> r"
        using r2 by simp
      show "r + 0 \<le> 2 ^ nat (m - D)"
        using cap0 by simp
      show "2 ^ nat (m - D - 1) < r"
        using full .
      show "(0 :: int) \<le> 0" "(0 :: int) \<le> 0" "(0 :: int) \<le> 2"
        by simp_all
      show "r \<le> ?n - 2" "?n - 2 \<le> ?n - 1" "?n - 1 \<le> ?n - 1" "?n - 2 \<le> ?n - 2"
        using rn by simp_all
      show "\<forall>k. r \<le> k \<and> k < ?n - 2 - 0 \<longrightarrow> ptr ?a k < ?n - 1"
      proof (intro allI impI)
        fix k assume "r \<le> k \<and> k < ?n - 2 - 0"
        then have "0 \<le> k" "k \<le> ?n - 3"
          using r2 by arith+
        from pp_ptr(2) [OF pp this] show "ptr ?a k < ?n - 1"
          by simp
      qed
      show "4 = 2 * (?n - 1 - (?n - 2)) + 2 * 1" "(0 :: int) \<le> 1"
        by simp_all
      show "(0 :: int) = 0 \<or> (0 :: int) = 1"
        by simp
      show "r - 2 = max 0 (r + 0 - 2 ^ nat (2 - D))" "D \<le> 2"
        using one r2 by simp_all
      show "r - 2 = 0 \<and> (0 :: int) = 0 \<or> (2 :: int) ^ nat (2 - D) + 0 \<le> 2 * 1"
        using one by simp
      show "?n - 1 + 1 = 4 + (?n - 2 - r) + (r - 2) - 0"
        by simp
      show "?n - 2 \<le> max r (lv ?a (nat (2 - 2)))" "(2 :: int) \<le> 2"
        by simp_all
      show "written ?a s (?n - 1) (2 - 1)"
        by (rule written_start)
      show "2 \<le> m + 1" "2 = m + 1 \<longrightarrow> (4 :: int) = 0"
        using m2 by simp_all
    qed
    then show ?thesis
      using e by auto
  next
    case zero
    have e: "allocateNodeLengthsWithRelocation s r D =
        anlr_loop s r 0 (?n - 2) (?n - 1) 1 r 2"
      using zero by (simp add: allocateNodeLengthsWithRelocation_def js_shl_def to_int32_def)
    have full0: "2 ^ nat (m - 1) < r"
      using full zero by simp
    have m3: "3 \<le> m"
    proof (rule ccontr)
      assume "\<not> 3 \<le> m"
      then have "m = 2"
        using m2 by simp
      then have "(2 :: int) ^ nat (m - 1) = 2" "(2 :: int) ^ nat m = 4"
        by simp_all
      then show False
        using full0 rn zero(2) by linarith
    qed
    have rpos: "0 < lv ?a (nat (m - 2))"
      using r2 rl by arith
    have "0 < nat (m - 2)" "Suc 0 \<le> nat (m - 2)"
      using m3 by arith+
    then have rF: "r < ?n - 2" and rF1: "r \<le> lv ?a (Suc 0)"
      using lv_strict [OF pp _ rpos, of 0] lv_antimono [OF pp, of "Suc 0" "nat (m - 2)"] rl
      by simp_all
    define F' where "F' = nl ?a (?n - 2)"
    have F'r: "r \<le> F'"
      using rF1 by (simp add: F'_def)
    have Fb: "0 \<le> ?n - 2" "1 \<le> ?n - 2"
      using n3 by simp_all
    have F'F: "F' < ?n - 2"
      using nl_less [OF pp Fb(2)] by (simp add: F'_def)
    have F'0: "0 \<le> F'" "F' \<le> ?n - 3"
      using F'r r2 F'F by arith+
    have "first s (?n - 2 - 1) r = Some (max r (nl ?a (?n - 2)), s)"
      using r2 rF by (intro first_nl [OF pp n]) auto
    then have first: "(if ?n - 2 \<le> r then Some (?n - 2, s) else first s (?n - 2 - 1) r)
        = Some (F', s)"
      using rF F'r by (simp add: F'_def max_def)
    have "js_shl 1 (1 - 0) = 2"
      by (simp add: js_shl_def to_int32_def)
    then have ao: "anlr_offset s 0 1 r (?n - 2) F' = (2, F', s)"
      using r2 by (simp add: anlr_offset_def)
    let ?x = "?n - 2 - F' + 2"
    have "?x < 1073741824" "0 \<le> ?x"
      using F'0 F'F n by arith+
    then have shl: "js_shl ?x 1 = 2 * ?x"
      by (intro js_shl_1) auto
    have ptrF': "?n - 2 \<le> ptr ?a F'"
      using nl_props(4) [OF Fb(1), of ?a] F'F by (simp add: F'_def)
    have keyF': "2 * ptr ?a F' \<le> key ?n (?a ! nat F')"
      using pp_ptr(3) [OF pp F'0] by (simp split: if_splits)
    have lo: "2 * (?n - 2) \<le> key ?n (?a ! nat F')"
      using keyF' ptrF' by arith
    have hi: "ptr ?a (?n - 3) < ?n - 1"
      using pp_ptr(2) [OF pp, of "?n - 3"] n3 by simp
    have E2: "?n - 2 - F' \<le> 2"
      using pp_count [OF pp F'0(1) F'0(2) _ lo hi] by simp
    have "\<exists>out. anlr_loop s r 0 F' (?n - 1) 2 (r - 2) (2 * ?x) = Some out \<and>
        written ?a out (- 1) m \<and> (?n - 2 - F' = 0 \<longrightarrow> oob out = oob s)"
    proof (rule anlr_loop_relocating [OF pp n _ rl m2, where kappa = 2 and E = "?n - 2 - F'"
          and G = "?n - 2" and po = 2 and eps = 0])
      show "0 \<le> r"
        using r2 by simp
      show "0 < m" "m - 0 \<le> 30"
        using m2 b30 zero by simp_all
      have "r + 2 \<le> 2 ^ nat m"
        using rn zero(2) by linarith
      then show "r + 2 \<le> 2 ^ nat (m - 0)"
        by simp
      show "2 ^ nat (m - 0 - 1) < r"
        using full0 by simp
      show "0 \<le> ?n - 2 - F'" "?n - 2 - F' \<le> 2" "(2 :: int) \<le> 2"
        using F'F E2 by simp_all
      show "r \<le> F'" "F' \<le> ?n - 2" "?n - 2 \<le> ?n - 1" "F' \<le> ?n - 2"
        using F'r F'F by simp_all
      show "\<forall>k. r \<le> k \<and> k < F' - 0 \<longrightarrow> ptr ?a k < ?n - 2"
        using nl_props(3) [OF Fb(1), of _ ?a] r2 by (auto simp: F'_def)
      show "2 * ?x = 2 * (?n - 2 - F') + 2 * 2" "(0 :: int) \<le> 2"
        by simp_all
      show "(0 :: int) = 0 \<or> (0 :: int) = 1"
        by simp
      show "r - 2 = max 0 (r + 2 - 2 ^ nat (2 - 0))" "(0 :: int) \<le> 2"
        using r2 by simp_all
      show "r - 2 = 0 \<and> (0 :: int) = 0 \<or> (2 :: int) ^ nat (2 - 0) + 0 \<le> 2 * 2"
        by simp
      show "?n - 1 + 1 = 2 * ?x + (F' - r) + (r - 2) - (?n - 2 - F')"
        by simp
      show "F' \<le> max r (lv ?a (nat (2 - 2)))" "(2 :: int) \<le> 2"
        using F'F by simp_all
      show "written ?a s (?n - 1) (2 - 1)"
        by (rule written_start)
      show "2 \<le> m + 1" "2 = m + 1 \<longrightarrow> 2 * ?x = 0"
        using m3 by simp_all
    qed
    then obtain out where out: "anlr_loop s r 0 F' (?n - 1) 2 (r - 2) (2 * ?x) = Some out"
      "written ?a out (- 1) m"
      by blast
    have "anlr_loop s r 0 (?n - 2) (?n - 1) 1 r 2 = Some out"
      using first ao F'F shl out(1)
      by (subst anlr_loop.simps) (simp add: Let_def write_run_nonpos del: if_split)
    then show ?thesis
      using e out(2) zero(1) by simp
  qed
qed

section \<open>The whole call\<close>

lemma allocate_small:
  "length xs = 1 \<Longrightarrow> allocateHuffmanCodeLengths (fresh xs) m = Some (fresh [1])"
  "length xs = 2 \<Longrightarrow> allocateHuffmanCodeLengths (fresh xs) m = Some (fresh [1, 1])"
proof -
  show "allocateHuffmanCodeLengths (fresh xs) m = Some (fresh [1])" if "length xs = 1"
  proof -
    from that obtain x where "xs = [x]"
      by (cases xs) auto
    then show ?thesis
      by (simp add: allocateHuffmanCodeLengths_def fresh_def wr_def in_range_def)
  qed
  show "allocateHuffmanCodeLengths (fresh xs) m = Some (fresh [1, 1])" if "length xs = 2"
  proof -
    from that obtain x y where "xs = [x, y]"
      by (cases xs; cases "tl xs") auto
    then show ?thesis
      by (simp add: allocateHuffmanCodeLengths_def fresh_def wr_def in_range_def)
  qed
qed

text \<open>Passes 1 and 2 on a fresh buffer of three or more elements, and the dispatch.\<close>

lemma allocate_passes:
  assumes "3 \<le> length xs" "int (length xs) < 1073741824"
  defines "s1 \<equiv> setExtendedParentPointers (fresh xs)"
  shows "pp (arr s1)" "length (arr s1) = length xs" "\<not> oob s1"
    "\<exists>j. findNodesToRelocate s1 m = Some (lv (arr s1) j, s1) \<and>
       int j \<le> max 0 (m - 2) \<and> (lv (arr s1) j \<le> 1 \<or> m - 2 \<le> int j)"
    "findNodesToRelocate s1 m = Some (r, s1) \<Longrightarrow>
       allocateHuffmanCodeLengths (fresh xs) m =
         (if js_rem (arr s1 ! 0) (int (length xs)) \<ge> r then allocateNodeLengths s1
          else allocateNodeLengthsWithRelocation s1 r (m - fls (r - 1)))"
proof -
  show pp: "pp (arr s1)" and o: "\<not> oob s1"
    using setExtendedParentPointers_pp [of "fresh xs"] assms(1) by (simp_all add: s1_def)
  show len: "length (arr s1) = length xs"
    by (simp add: s1_def)
  show "\<exists>j. findNodesToRelocate s1 m = Some (lv (arr s1) j, s1) \<and>
       int j \<le> max 0 (m - 2) \<and> (lv (arr s1) j \<le> 1 \<or> m - 2 \<le> int j)"
    using findNodesToRelocate_lv [OF pp, of m] assms(2) len by simp
  show "allocateHuffmanCodeLengths (fresh xs) m =
         (if js_rem (arr s1 ! 0) (int (length xs)) \<ge> r then allocateNodeLengths s1
          else allocateNodeLengthsWithRelocation s1 r (m - fls (r - 1)))"
    if f: "findNodesToRelocate s1 m = Some (r, s1)"
  proof -
    have r: "in_range s1 0"
      using assms(1) len by (cases "arr s1") (auto simp: in_range_def)
    then have t: "touch s1 0 = s1" "rd s1 0 = Some (arr s1 ! 0)"
      by (simp_all add: rd_def)
    have ne: "length (arr (fresh xs)) \<noteq> 2" "length (arr (fresh xs)) \<noteq> 1"
      using assms(1) by simp_all
    show ?thesis
      unfolding allocateHuffmanCodeLengths_def Let_def
      by (simp only: ne if_False f [unfolded s1_def] Option.bind.simps prod.case
          t [unfolded s1_def] option.case len [unfolded s1_def] s1_def)
  qed
qed

lemma pow2_less_imp:
  assumes "(2 :: int) ^ i < 2 ^ j"
  shows "i < j"
  using assms by (simp only: power_strict_increasing_iff [of "2 :: int"] one_less_numeral_iff
      semiring_norm)

text \<open>With a limit of at least \<open>ceil (log2 n)\<close> the call returns, and the whole buffer holds
  code lengths between 1 and the limit, in non-increasing order.\<close>

lemma allocate_capped:
  assumes n3: "3 \<le> length xs" and n: "int (length xs) < 1073741824"
    and nm: "int (length xs) \<le> 2 ^ nat m"
  shows "\<exists>out. allocateHuffmanCodeLengths (fresh xs) m = Some out \<and>
           written (arr (setExtendedParentPointers (fresh xs))) out (- 1) m"
proof -
  define s1 where "s1 = setExtendedParentPointers (fresh xs)"
  let ?a = "arr s1"
  note P = allocate_passes [OF n3 n, folded s1_def]
  have n': "int (length ?a) < 1073741824"
    using n P(2) by simp
  have m2: "2 \<le> m"
  proof (rule ccontr)
    assume "\<not> 2 \<le> m"
    then have "nat m \<le> 1"
      by arith
    then have "(2 :: int) ^ nat m \<le> 2 ^ 1"
      by (intro power_increasing) auto
    then show False
      using nm n3 by simp
  qed
  from P(4) [of m] obtain j where j: "findNodesToRelocate s1 m = Some (lv ?a j, s1)"
    "int j \<le> max 0 (m - 2)" "lv ?a j \<le> 1 \<or> m - 2 \<le> int j"
    by blast
  define r where "r = lv ?a j"
  have rb: "0 \<le> r" "r \<le> int (length xs) - 2"
    using lv_bounds [OF P(1), of j] P(2) by (simp_all add: r_def)
  have p0: "0 < ptr ?a 0" "ptr ?a 0 = js_rem (?a ! 0) (int (length xs))"
    using pp_ptr(1) [OF P(1), of 0] n3 P(2) by (simp_all add: ptr_def)
  show ?thesis
  proof (cases "js_rem (?a ! 0) (int (length xs)) \<ge> r")
    case True
    then have e: "allocateHuffmanCodeLengths (fresh xs) m = allocateNodeLengths s1"
      using P(5) [of m r] j(1) by (simp add: r_def)
    have "nl ?a r = 0"
      using True p0(2) rb(1) by (intro nl_unique) auto
    then have "lv ?a (Suc j) = 0"
      by (simp add: r_def)
    moreover have "Suc j \<le> nat (m - 1)"
      using j(2) m2 by arith
    ultimately have "lv ?a (nat (m - 1)) = 0"
      by (rule lv_zero [OF P(1)])
    from allocateNodeLengths_total [OF P(1) n' this] show ?thesis
      using e m2 by (auto simp: s1_def)
  next
    case False
    then have e: "allocateHuffmanCodeLengths (fresh xs) m =
        allocateNodeLengthsWithRelocation s1 r (m - fls (r - 1))"
      using P(5) [of m r] j(1) by (simp add: r_def)
    have r2: "2 \<le> r"
      using False p0 by arith
    then have "nat (m - 2) = j"
      using j(2,3) m2 unfolding r_def by arith
    then have rl: "r = lv ?a (nat (m - 2))"
      by (simp add: r_def)
    define b where "b = fls (r - 1)"
    have b: "1 \<le> b" "2 ^ nat (b - 1) \<le> r - 1"
      using fls_bounds [of "r - 1"] r2 by (simp_all add: b_def)
    have "(2 :: int) ^ nat (b - 1) < 2 ^ nat m"
      using b(2) rb(2) nm by linarith
    then have "nat (b - 1) < nat m"
      by (rule pow2_less_imp)
    then have "0 \<le> m - b"
      using b(1) by arith
    then have "1 \<le> m - fls (r - 1) \<or>
        (m - fls (r - 1) = 0 \<and> int (length ?a) \<le> 2 ^ nat m)"
      using nm P(2) by (auto simp: b_def)
    from allocateNodeLengthsWithRelocation_total [OF P(1) n' r2 rl m2 refl this]
    show ?thesis
      using e by (auto simp: s1_def)
  qed
qed

text \<open>Whatever the limit is, the call returns and stays inside the buffer when the unlimited
  assigner runs, or the limited one with an insert depth of at least 1.\<close>

lemma allocate_safe:
  assumes n3: "3 \<le> length xs" and n: "int (length xs) < 1073741824"
    and f: "findNodesToRelocate (setExtendedParentPointers (fresh xs)) m =
      Some (r, setExtendedParentPointers (fresh xs))"
    and c: "js_rem (arr (setExtendedParentPointers (fresh xs)) ! 0) (int (length xs)) \<ge> r \<or>
      1 \<le> m - fls (r - 1)"
  shows "\<exists>out. allocateHuffmanCodeLengths (fresh xs) m = Some out \<and> \<not> oob out"
proof -
  define s1 where "s1 = setExtendedParentPointers (fresh xs)"
  let ?a = "arr s1"
  note P = allocate_passes [OF n3 n, folded s1_def]
  have n': "int (length ?a) < 1073741824"
    using n P(2) by simp
  from P(4) [of m] f obtain j where j: "r = lv ?a j"
    "int j \<le> max 0 (m - 2)" "lv ?a j \<le> 1 \<or> m - 2 \<le> int j"
    by (auto simp: s1_def)
  have p0: "0 < ptr ?a 0" "ptr ?a 0 = js_rem (?a ! 0) (int (length xs))"
    using pp_ptr(1) [OF P(1), of 0] n3 P(2) by (simp_all add: ptr_def)
  show ?thesis
  proof (cases "js_rem (?a ! 0) (int (length xs)) \<ge> r")
    case True
    then have e: "allocateHuffmanCodeLengths (fresh xs) m = allocateNodeLengths s1"
      using P(5) [of m r] f by (simp add: s1_def)
    have "lv ?a (nat (int (length ?a) + 1 - 1)) = 0"
      using lv_length_zero [OF P(1)] by simp
    from allocateNodeLengths_total [OF P(1) n' this] show ?thesis
      using e P(3) by auto
  next
    case False
    then have e: "allocateHuffmanCodeLengths (fresh xs) m =
        allocateNodeLengthsWithRelocation s1 r (m - fls (r - 1))"
      using P(5) [of m r] f by (simp add: s1_def)
    have D1: "1 \<le> m - fls (r - 1)"
      using c False by (simp add: s1_def)
    have r2: "2 \<le> r"
      using False p0 by arith
    have "1 \<le> fls (r - 1)"
      using fls_bounds [of "r - 1"] r2 by simp
    then have m2: "2 \<le> m"
      using D1 by arith
    then have "nat (m - 2) = j"
      using j r2 by arith
    then have rl: "r = lv ?a (nat (m - 2))"
      using j(1) by simp
    from allocateNodeLengthsWithRelocation_total [OF P(1) n' r2 rl m2 refl, of ] D1
    show ?thesis
      using e P(3) by auto
  qed
qed

section \<open>Cap, order and bounds of the code lengths\<close>

lemma ceil_log2_int:
  assumes "int (ceil_log2 n) \<le> m"
  shows "int n \<le> 2 ^ nat m"
proof -
  have "ceil_log2 n \<le> nat m"
    using assms by arith
  then have "n \<le> 2 ^ nat m"
    by (rule ceil_log2_le)
  then have "int n \<le> int (2 ^ nat m)"
    by (simp only: of_nat_le_iff)
  then show ?thesis
    by simp
qed

lemma ceil_log2_ge_1: "2 \<le> n \<Longrightarrow> 1 \<le> ceil_log2 n"
  by (subst ceil_log2.simps) simp

lemma allocate_returns_lengths:
  assumes n1: "1 \<le> length xs" and n: "int (length xs) < 1073741824"
    and c: "int (ceil_log2 (length xs)) \<le> m"
  shows "\<exists>out. allocateHuffmanCodeLengths (fresh xs) m = Some out \<and>
           length (arr out) = length xs \<and>
           (\<forall>i < length xs. 1 \<le> arr out ! i \<and> arr out ! i \<le> max m 1) \<and>
           (\<forall>i. i + 1 < length xs \<longrightarrow> arr out ! (i + 1) \<le> arr out ! i)"
proof -
  consider "length xs = 1" | "length xs = 2" | "3 \<le> length xs"
    using n1 by arith
  then show ?thesis
  proof cases
    case 1
    then show ?thesis
      using allocate_small(1) [OF 1, of m] by (simp add: fresh_def)
  next
    case 2
    then show ?thesis
      using allocate_small(2) [OF 2, of m] by (auto simp: fresh_def less_Suc_eq numeral_2_eq_2)
  next
    case 3
    from allocate_capped [OF 3 n ceil_log2_int [OF c]]
    obtain out where out: "allocateHuffmanCodeLengths (fresh xs) m = Some out"
      and w: "written (arr (setExtendedParentPointers (fresh xs))) out (- 1) m"
      by blast
    have len: "length (arr out) = length xs"
      using w by (simp add: written_def)
    have W: "\<And>k. 0 \<le> k \<Longrightarrow> k < int (length xs) \<Longrightarrow>
        1 \<le> arr out ! nat k \<and> arr out ! nat k \<le> m"
      and M: "\<And>k k'. 0 \<le> k \<Longrightarrow> k \<le> k' \<Longrightarrow> k' < int (length xs) \<Longrightarrow>
        arr out ! nat k' \<le> arr out ! nat k"
      using w by (simp_all add: written_def)
    have rng: "1 \<le> arr out ! i \<and> arr out ! i \<le> max m 1" if "i < length xs" for i
      using W [of "int i"] that by simp
    have mono: "arr out ! (i + 1) \<le> arr out ! i" if "i + 1 < length xs" for i
    proof -
      have "nat (int (i + 1)) = i + 1" "nat (int i) = i"
        by simp_all
      with M [of "int i" "int (i + 1)"] that show ?thesis
        by (simp only: of_nat_0_le_iff of_nat_le_iff of_nat_less_iff le_add1)
    qed
    show ?thesis
      using out len rng mono by blast
  qed
qed

lemma allocate_in_buffer:
  assumes n1: "1 \<le> length xs" and n: "int (length xs) < 1073741824"
    and c: "int (ceil_log2 (length xs)) + 1 \<le> m"
  shows "\<exists>out. allocateHuffmanCodeLengths (fresh xs) m = Some out \<and> \<not> oob out"
proof -
  consider "length xs = 1" | "length xs = 2" | "3 \<le> length xs"
    using n1 by arith
  then show ?thesis
  proof cases
    case 1
    then show ?thesis
      using allocate_small(1) [OF 1, of m] by (simp add: fresh_def)
  next
    case 2
    then show ?thesis
      using allocate_small(2) [OF 2, of m] by (simp add: fresh_def)
  next
    case 3
    define s1 where "s1 = setExtendedParentPointers (fresh xs)"
    note P = allocate_passes [OF 3 n, folded s1_def]
    from P(4) [of m] obtain j where j: "findNodesToRelocate s1 m = Some (lv (arr s1) j, s1)"
      by blast
    define r where "r = lv (arr s1) j"
    have rb: "r \<le> int (length xs) - 2"
      using lv_bounds [OF P(1), of j] P(2) by (simp add: r_def)
    have nm: "int (length xs) \<le> 2 ^ nat (m - 1)"
      using c by (intro ceil_log2_int) arith
    have "1 \<le> m - fls (r - 1)"
    proof (cases "2 \<le> r")
      case True
      define b where "b = fls (r - 1)"
      have b: "1 \<le> b" "2 ^ nat (b - 1) \<le> r - 1"
        using fls_bounds [of "r - 1"] True by (simp_all add: b_def)
      have "(2 :: int) ^ nat (b - 1) < 2 ^ nat (m - 1)"
        using b(2) rb nm by linarith
      then have "nat (b - 1) < nat (m - 1)"
        by (rule pow2_less_imp)
      then show ?thesis
        using b(1) unfolding b_def by arith
    next
      case False
      then have "fls (r - 1) \<le> 1"
        by (subst fls.simps, subst fls.simps) auto
      moreover have "2 \<le> m"
        using c ceil_log2_ge_1 [of "length xs"] 3 by arith
      ultimately show ?thesis
        by arith
    qed
    with allocate_safe [OF 3 n, of m r] j show ?thesis
      by (simp add: r_def s1_def)
  qed
qed

text \<open>
  C2, amended: for every buffer of \<open>1 \<le> n < 2^30\<close> frequencies (sorted or not) and every
  \<open>maximumLength \<ge> ceil (log2 n)\<close>, the call returns and every output value is at most
  \<open>max maximumLength 1\<close>, that is, at most \<open>maximumLength\<close> as soon as \<open>n \<ge> 2\<close>; this
  covers the runs that go through the relocation pass.
\<close>

theorem C2_lengths_within_limit:
  assumes "1 \<le> length xs" and "int (length xs) < 1073741824"
    and "int (ceil_log2 (length xs)) \<le> maximumLength"
  shows "\<exists>out. allocateHuffmanCodeLengths (fresh xs) maximumLength = Some out \<and>
           length (arr out) = length xs \<and>
           (\<forall>i < length xs. arr out ! i \<le> max maximumLength 1)"
  using allocate_returns_lengths [OF assms] by blast

theorem C2_lengths_within_limit_witness:
  "1 \<le> length [1 :: int, 2, 4, 8, 16] \<and> int (length [1 :: int, 2, 4, 8, 16]) < 1073741824 \<and>
   int (ceil_log2 (length [1 :: int, 2, 4, 8, 16])) \<le> 3 \<and>
   (\<exists>out. allocateHuffmanCodeLengths (fresh [1, 2, 4, 8, 16]) 3 = Some out \<and>
      length (arr out) = 5 \<and> arr out ! 0 \<le> 3 \<and> arr out ! 4 \<le> 3) \<and>
   allocateNodeLengths (setExtendedParentPointers (fresh [1, 2, 4, 8, 16])) =
     Some (fresh [4, 4, 3, 2, 1]) \<and>
   allocateHuffmanCodeLengths (fresh [1, 2, 4, 8, 16]) 3 = Some (fresh [3, 3, 3, 3, 1])"
proof -
  have h1: "1 \<le> length [1 :: int, 2, 4, 8, 16]"
    by simp
  have h2: "int (length [1 :: int, 2, 4, 8, 16]) < 1073741824"
    by simp
  have h3: "int (ceil_log2 (length [1 :: int, 2, 4, 8, 16])) \<le> 3"
    by code_simp
  have v: "allocateHuffmanCodeLengths (fresh [1, 2, 4, 8, 16]) 3 = Some (fresh [3, 3, 3, 3, 1])"
    by code_simp
  have u: "allocateNodeLengths (setExtendedParentPointers (fresh [1, 2, 4, 8, 16])) =
     Some (fresh [4, 4, 3, 2, 1])"
    by code_simp
  from C2_lengths_within_limit [OF h1 h2 h3]
  have "\<exists>out. allocateHuffmanCodeLengths (fresh [1, 2, 4, 8, 16]) 3 = Some out \<and>
      length (arr out) = 5 \<and> arr out ! 0 \<le> 3 \<and> arr out ! 4 \<le> 3"
    by auto
  then show ?thesis
    using h1 h2 h3 u v by simp
qed

text \<open>
  C3: for every buffer of \<open>1 \<le> n < 2^30\<close> frequencies and every
  \<open>maximumLength \<ge> ceil (log2 n)\<close>, the call returns and the output lengths are
  non-increasing: \<open>array[i] \<ge> array[i + 1]\<close> for every \<open>i\<close> with \<open>0 \<le> i < n - 1\<close>. The
  order of the input frequencies is not used.
\<close>

theorem C3_lengths_non_increasing:
  assumes "1 \<le> length xs" and "int (length xs) < 1073741824"
    and "int (ceil_log2 (length xs)) \<le> maximumLength"
  shows "\<exists>out. allocateHuffmanCodeLengths (fresh xs) maximumLength = Some out \<and>
           length (arr out) = length xs \<and>
           (\<forall>i. i + 1 < length xs \<longrightarrow> arr out ! (i + 1) \<le> arr out ! i)"
  using allocate_returns_lengths [OF assms] by blast

theorem C3_lengths_non_increasing_witness:
  "1 \<le> length [1 :: int, 1, 2, 3, 5, 8] \<and> int (length [1 :: int, 1, 2, 3, 5, 8]) < 1073741824 \<and>
   int (ceil_log2 (length [1 :: int, 1, 2, 3, 5, 8])) \<le> 3 \<and>
   (\<exists>out. allocateHuffmanCodeLengths (fresh [1, 1, 2, 3, 5, 8]) 3 = Some out \<and>
      length (arr out) = 6 \<and> arr out ! 1 \<le> arr out ! 0 \<and> arr out ! 5 \<le> arr out ! 4) \<and>
   allocateHuffmanCodeLengths (fresh [1, 1, 2, 3, 5, 8]) 3 = Some (fresh [3, 3, 3, 3, 2, 2])"
proof -
  have h1: "1 \<le> length [1 :: int, 1, 2, 3, 5, 8]"
    by simp
  have h2: "int (length [1 :: int, 1, 2, 3, 5, 8]) < 1073741824"
    by simp
  have h3: "int (ceil_log2 (length [1 :: int, 1, 2, 3, 5, 8])) \<le> 3"
    by code_simp
  have v: "allocateHuffmanCodeLengths (fresh [1, 1, 2, 3, 5, 8]) 3 =
      Some (fresh [3, 3, 3, 3, 2, 2])"
    by code_simp
  from C3_lengths_non_increasing [OF h1 h2 h3]
  obtain out where o: "allocateHuffmanCodeLengths (fresh [1, 1, 2, 3, 5, 8]) 3 = Some out"
    "length (arr out) = 6"
    "\<And>i. i + 1 < 6 \<Longrightarrow> arr out ! (i + 1) \<le> arr out ! i"
    by auto
  have "arr out ! 1 \<le> arr out ! 0" "arr out ! 5 \<le> arr out ! 4"
    using o(3) [of 0] o(3) [of 4] by simp_all
  then have "\<exists>out. allocateHuffmanCodeLengths (fresh [1, 1, 2, 3, 5, 8]) 3 = Some out \<and>
      length (arr out) = 6 \<and> arr out ! 1 \<le> arr out ! 0 \<and> arr out ! 5 \<le> arr out ! 4"
    using o(1,2) by blast
  then show ?thesis
    using h1 h2 h3 v by simp
qed

text \<open>
  C5, amended: for every buffer of \<open>1 \<le> n < 2^30\<close> elements, sorted or not, and every
  integer \<open>maximumLength\<close>, the call touches only the indices \<open>0 .. n - 1\<close> as far as the
  trivial sizes, pass 1 and pass 2 go, and the whole call returns and stays inside the
  buffer whenever the unlimited assigner runs or the limited assigner is entered with an
  insert depth of at least 1, which is so whenever \<open>maximumLength \<ge> ceil (log2 n) + 1\<close>.
  Nothing is said about a limited assigner entered with an insert depth below 1.
\<close>

theorem C5_stays_in_buffer:
  assumes "1 \<le> length xs" and "int (length xs) < 1073741824"
  shows "(length xs \<le> 2 \<longrightarrow>
            (\<exists>out. allocateHuffmanCodeLengths (fresh xs) maximumLength = Some out \<and>
               \<not> oob out)) \<and>
         (3 \<le> length xs \<longrightarrow>
            \<not> oob (setExtendedParentPointers (fresh xs)) \<and>
            (\<exists>r. findNodesToRelocate (setExtendedParentPointers (fresh xs)) maximumLength =
                 Some (r, setExtendedParentPointers (fresh xs)) \<and>
               (js_rem (arr (setExtendedParentPointers (fresh xs)) ! 0) (int (length xs)) \<ge> r \<or>
                1 \<le> maximumLength - fls (r - 1) \<longrightarrow>
                  (\<exists>out. allocateHuffmanCodeLengths (fresh xs) maximumLength = Some out \<and>
                     \<not> oob out)))) \<and>
         (int (ceil_log2 (length xs)) + 1 \<le> maximumLength \<longrightarrow>
            (\<exists>out. allocateHuffmanCodeLengths (fresh xs) maximumLength = Some out \<and>
               \<not> oob out))"
proof (intro conjI impI)
  assume "length xs \<le> 2"
  then consider "length xs = 1" | "length xs = 2"
    using assms(1) by arith
  then show "\<exists>out. allocateHuffmanCodeLengths (fresh xs) maximumLength = Some out \<and> \<not> oob out"
    using allocate_small [of xs maximumLength] by cases (simp_all add: fresh_def)
next
  assume 3: "3 \<le> length xs"
  note P = allocate_passes [OF 3 assms(2)]
  show "\<not> oob (setExtendedParentPointers (fresh xs))"
    by (rule P(3))
  from P(4) [of maximumLength] obtain r where
    r: "findNodesToRelocate (setExtendedParentPointers (fresh xs)) maximumLength =
      Some (r, setExtendedParentPointers (fresh xs))"
    by blast
  show "\<exists>r. findNodesToRelocate (setExtendedParentPointers (fresh xs)) maximumLength =
           Some (r, setExtendedParentPointers (fresh xs)) \<and>
         (js_rem (arr (setExtendedParentPointers (fresh xs)) ! 0) (int (length xs)) \<ge> r \<or>
          1 \<le> maximumLength - fls (r - 1) \<longrightarrow>
            (\<exists>out. allocateHuffmanCodeLengths (fresh xs) maximumLength = Some out \<and>
               \<not> oob out))"
    using r allocate_safe [OF 3 assms(2) r] by blast
next
  assume "int (ceil_log2 (length xs)) + 1 \<le> maximumLength"
  then show "\<exists>out. allocateHuffmanCodeLengths (fresh xs) maximumLength = Some out \<and> \<not> oob out"
    by (rule allocate_in_buffer [OF assms])
qed

theorem C5_stays_in_buffer_witness:
  "1 \<le> length [7 :: int, 1, 3, 1, 20, 2] \<and> int (length [7 :: int, 1, 3, 1, 20, 2]) < 1073741824 \<and>
   3 \<le> length [7 :: int, 1, 3, 1, 20, 2] \<and>
   \<not> oob (setExtendedParentPointers (fresh [7, 1, 3, 1, 20, 2])) \<and>
   (\<exists>r. findNodesToRelocate (setExtendedParentPointers (fresh [7, 1, 3, 1, 20, 2])) 3 =
       Some (r, setExtendedParentPointers (fresh [7, 1, 3, 1, 20, 2])) \<and>
       1 \<le> 3 - fls (r - 1) \<and>
      (\<exists>out. allocateHuffmanCodeLengths (fresh [7, 1, 3, 1, 20, 2]) 3 = Some out \<and> \<not> oob out))"
proof -
  have h1: "1 \<le> length [7 :: int, 1, 3, 1, 20, 2]"
    by simp
  have h2: "int (length [7 :: int, 1, 3, 1, 20, 2]) < 1073741824"
    by simp
  have h3: "3 \<le> length [7 :: int, 1, 3, 1, 20, 2]"
    by simp
  have f: "findNodesToRelocate (setExtendedParentPointers (fresh [7, 1, 3, 1, 20, 2])) 3 =
      Some (3, setExtendedParentPointers (fresh [7, 1, 3, 1, 20, 2]))"
    by code_simp
  have d: "1 \<le> 3 - fls (3 - 1)"
    by code_simp
  from C5_stays_in_buffer [OF h1 h2, of 3] h3 f d show ?thesis
    by auto
qed

end
